theory Spec2Isabelle
  imports Main "HOL-Library.Extended_Nat"
begin

section \<open>Boards of the KRK endgame\<close>

text \<open>
  The generators of this repository work on \<^verbatim>\<open>chess.Board\<close> objects of the python-chess
  library and key their store by \<^verbatim>\<open>board.fen()\<close>. Only three pieces ever stand on a board
  here: the white king, the white rook and the black king. A FEN string spells out the
  piece placement, the side to move, the castling rights (always \<^verbatim>\<open>-\<close> here), the en
  passant square (always \<^verbatim>\<open>-\<close> here), the halfmove clock and the fullmove number.  A board is
  therefore modelled by a record of exactly the fields its FEN spells out; each piece is
  optional because a capture removes it.  Squares are the library's integers 0..63
  (\<^verbatim>\<open>a1 = 0\<close>, \<^verbatim>\<open>h1 = 7\<close>, \<^verbatim>\<open>a8 = 56\<close>, \<^verbatim>\<open>h8 = 63\<close>).
\<close>

datatype color = WHITE | BLACK

type_synonym square = nat

record board =
  wk :: "square option"
  wr :: "square option"
  bk :: "square option"
  turn :: color
  halfmove_clock :: nat
  fullmove_number :: nat

text \<open>
  \<^verbatim>\<open>board.fen()\<close> and \<^verbatim>\<open>chess.Board(fen)\<close> write and read these fields without loss, so
  the dictionary key (a FEN string) is identified with the record; \<open>fen_string\<close> below
  renders it as text.
\<close>

type_synonym fen = board

type_synonym move = "square \<times> square"

definition opponent :: "color \<Rightarrow> color" where
  "opponent c = (case c of WHITE \<Rightarrow> BLACK | BLACK \<Rightarrow> WHITE)"

definition square_rank :: "square \<Rightarrow> nat" where
  "square_rank s = s div 8"

definition square_file :: "square \<Rightarrow> nat" where
  "square_file s = s mod 8"

definition square_distance :: "square \<Rightarrow> square \<Rightarrow> int" where
  "square_distance a b =
     max \<bar>int (square_rank a) - int (square_rank b)\<bar> \<bar>int (square_file a) - int (square_file b)\<bar>"

text \<open>\<^verbatim>\<open>chess.Board(fen=None)\<close> followed by three \<^verbatim>\<open>set_piece_at\<close> calls and \<^verbatim>\<open>board.turn = turn\<close>:
  an otherwise empty board whose counters are the initial \<^verbatim>\<open>0\<close> and \<^verbatim>\<open>1\<close>.\<close>

definition krk_board :: "square \<Rightarrow> square \<Rightarrow> square \<Rightarrow> color \<Rightarrow> board" where
  "krk_board k r q t =
     \<lparr>wk = Some k, wr = Some r, bk = Some q, turn = t, halfmove_clock = 0, fullmove_number = 1\<rparr>"

subsection \<open>Attacks\<close>

definition is_occupied :: "board \<Rightarrow> square \<Rightarrow> bool" where
  "is_occupied b s \<longleftrightarrow> wk b = Some s \<or> wr b = Some s \<or> bk b = Some s"

definition is_own :: "board \<Rightarrow> square \<Rightarrow> bool" where
  "is_own b s \<longleftrightarrow>
     (case turn b of WHITE \<Rightarrow> wk b = Some s \<or> wr b = Some s | BLACK \<Rightarrow> bk b = Some s)"

text \<open>\<^verbatim>\<open>BB_KING_ATTACKS[k]\<close>: the neighbours of \<open>k\<close> on the board.\<close>

definition king_attacks :: "square \<Rightarrow> square \<Rightarrow> bool" where
  "king_attacks k t \<longleftrightarrow> k < 64 \<and> t < 64 \<and> t \<noteq> k \<and> square_distance k t \<le> 1"

text \<open>The squares strictly between two squares of one rank or one file.\<close>

definition between :: "square \<Rightarrow> square \<Rightarrow> square list" where
  "between a b =
     (if square_rank a = square_rank b then [Suc (min a b) ..< max a b]
      else if square_file a = square_file b
      then filter (\<lambda>s. square_file s = square_file a) [Suc (min a b) ..< max a b]
      else [])"

text \<open>Sliding attacks of a rook on \<open>r\<close>: along its rank and file up to and including the
  first occupied square.\<close>

definition rook_attacks :: "board \<Rightarrow> square \<Rightarrow> square \<Rightarrow> bool" where
  "rook_attacks b r t \<longleftrightarrow>
     r < 64 \<and> t < 64 \<and> t \<noteq> r \<and>
     (square_rank r = square_rank t \<or> square_file r = square_file t) \<and>
     list_all (\<lambda>s. \<not> is_occupied b s) (between r t)"

text \<open>\<^verbatim>\<open>board.is_attacked_by(color, square)\<close>.\<close>

definition is_attacked_by :: "board \<Rightarrow> color \<Rightarrow> square \<Rightarrow> bool" where
  "is_attacked_by b c s =
     (case c of
        WHITE \<Rightarrow> (case wk b of None \<Rightarrow> False | Some k \<Rightarrow> king_attacks k s) \<or>
                 (case wr b of None \<Rightarrow> False | Some r \<Rightarrow> rook_attacks b r s)
      | BLACK \<Rightarrow> (case bk b of None \<Rightarrow> False | Some q \<Rightarrow> king_attacks q s))"

text \<open>\<^verbatim>\<open>board.attacks_mask(from_square)\<close>, by the kind of piece standing there.\<close>

definition piece_attacks :: "board \<Rightarrow> square \<Rightarrow> square \<Rightarrow> bool" where
  "piece_attacks b f t =
     (if wk b = Some f \<or> bk b = Some f then king_attacks f t
      else if wr b = Some f then rook_attacks b f t
      else False)"

definition king_of :: "board \<Rightarrow> square option" where
  "king_of b = (case turn b of WHITE \<Rightarrow> wk b | BLACK \<Rightarrow> bk b)"

text \<open>\<^verbatim>\<open>board.is_check()\<close>: the king of the side to move is attacked.\<close>

definition is_check :: "board \<Rightarrow> bool" where
  "is_check b =
     (case king_of b of None \<Rightarrow> False | Some k \<Rightarrow> is_attacked_by b (opponent (turn b)) k)"

subsection \<open>Legal moves\<close>

text \<open>\<^verbatim>\<open>scan_reversed\<close> visits the squares of a bitboard from h8 down to a1.\<close>

definition squares_desc :: "square list" where
  "squares_desc = rev [0 ..< 64]"

text \<open>\<^verbatim>\<open>generate_pseudo_legal_moves\<close>: every own piece (none is a pawn, and no castling right
  exists), from the highest square down, to every attacked square not holding an own
  piece. The library does not exclude the square of the opposing king.\<close>

definition moves_from :: "board \<Rightarrow> square \<Rightarrow> move list" where
  "moves_from b f =
     map (\<lambda>t. (f, t)) (filter (\<lambda>t. piece_attacks b f t \<and> \<not> is_own b t) squares_desc)"

definition generate_pseudo_legal_moves :: "board \<Rightarrow> move list" where
  "generate_pseudo_legal_moves b = concat (map (moves_from b) (filter (is_own b) squares_desc))"

text \<open>\<^verbatim>\<open>_generate_evasions\<close>. A checking slider (here only the white rook) forbids the whole
  line through king and checker except the checker's own square; then a single checker may
  be captured by a piece other than the king (here only the white rook taking an adjacent
  black king).\<close>

definition on_line :: "square \<Rightarrow> square \<Rightarrow> square \<Rightarrow> bool" where
  "on_line k c t \<longleftrightarrow>
     (square_rank k = square_rank c \<and> square_rank t = square_rank k) \<or>
     (square_file k = square_file c \<and> square_file t = square_file k)"

definition evasion_attacked :: "board \<Rightarrow> square \<Rightarrow> square \<Rightarrow> bool" where
  "evasion_attacked b k t =
     (case turn b of
        WHITE \<Rightarrow> False
      | BLACK \<Rightarrow> (case wr b of None \<Rightarrow> False
                 | Some r \<Rightarrow> rook_attacks b r k \<and> t \<noteq> r \<and> on_line k r t))"

definition capture_checker :: "board \<Rightarrow> move list" where
  "capture_checker b =
     (case turn b of
        WHITE \<Rightarrow> (case wr b of None \<Rightarrow> []
                 | Some r \<Rightarrow> (case bk b of None \<Rightarrow> []
                             | Some q \<Rightarrow> if rook_attacks b r q then [(r, q)] else []))
      | BLACK \<Rightarrow> [])"

definition generate_evasions :: "board \<Rightarrow> square \<Rightarrow> move list" where
  "generate_evasions b k =
     map (\<lambda>t. (k, t))
       (filter (\<lambda>t. king_attacks k t \<and> \<not> is_own b t \<and> \<not> evasion_attacked b k t) squares_desc)
     @ capture_checker b"

text \<open>\<^verbatim>\<open>_is_safe\<close>: a king move must not end on a square the opponent attacks (with the
  pieces as they stand before the move); no other piece is ever pinned, the lone black
  king having no slider behind it.\<close>

definition is_safe :: "board \<Rightarrow> square \<Rightarrow> move \<Rightarrow> bool" where
  "is_safe b k m = (if fst m = k then \<not> is_attacked_by b (opponent (turn b)) (snd m) else True)"

text \<open>\<^verbatim>\<open>board.legal_moves\<close>, in the order the library yields them.\<close>

definition legal_moves :: "board \<Rightarrow> move list" where
  "legal_moves b =
     (case king_of b of
        None \<Rightarrow> generate_pseudo_legal_moves b
      | Some k \<Rightarrow>
          filter (is_safe b k)
            (if is_check b then generate_evasions b k else generate_pseudo_legal_moves b))"

definition is_checkmate :: "board \<Rightarrow> bool" where
  "is_checkmate b \<longleftrightarrow> is_check b \<and> legal_moves b = []"

definition is_stalemate :: "board \<Rightarrow> bool" where
  "is_stalemate b \<longleftrightarrow> \<not> is_check b \<and> legal_moves b = []"

subsection \<open>Making a move\<close>

text \<open>\<^verbatim>\<open>board.push(move)\<close>: the halfmove clock is incremented and reset to zero by a capture
  (there are no pawns); the fullmove number is incremented after a move of Black; a piece
  standing on the destination is removed; the side to move changes.\<close>

definition relocate :: "square \<Rightarrow> square \<Rightarrow> square option \<Rightarrow> square option" where
  "relocate f t x = (if x = Some f then Some t else if x = Some t then None else x)"

definition is_capture :: "board \<Rightarrow> move \<Rightarrow> bool" where
  "is_capture b m \<longleftrightarrow>
     (case turn b of WHITE \<Rightarrow> bk b = Some (snd m)
                   | BLACK \<Rightarrow> wk b = Some (snd m) \<or> wr b = Some (snd m))"

definition push :: "board \<Rightarrow> move \<Rightarrow> board" where
  "push b m =
     \<lparr>wk = relocate (fst m) (snd m) (wk b),
      wr = relocate (fst m) (snd m) (wr b),
      bk = relocate (fst m) (snd m) (bk b),
      turn = opponent (turn b),
      halfmove_clock = (if is_capture b m then 0 else halfmove_clock b + 1),
      fullmove_number = (if turn b = BLACK then fullmove_number b + 1 else fullmove_number b)\<rparr>"

text \<open>\<^verbatim>\<open>move.uci()\<close>: the names of the two squares.\<close>

definition square_name :: "square \<Rightarrow> string" where
  "square_name s = [''abcdefgh'' ! square_file s, ''12345678'' ! square_rank s]"

definition uci :: "move \<Rightarrow> string" where
  "uci m = square_name (fst m) @ square_name (snd m)"

subsection \<open>The FEN text of a board\<close>

text \<open>\<^verbatim>\<open>board.fen()\<close>: the placement from a8 to h1 with runs of empty squares counted, then
  the side to move, \<^verbatim>\<open>-\<close> for the castling rights, \<^verbatim>\<open>-\<close> for the en passant square, the
  halfmove clock and the fullmove number.\<close>

fun str_nat :: "nat \<Rightarrow> string" where
  "str_nat n =
     (if n < 10 then [''0123456789'' ! n] else str_nat (n div 10) @ [''0123456789'' ! (n mod 10)])"

definition piece_symbol :: "board \<Rightarrow> square \<Rightarrow> char option" where
  "piece_symbol b s =
     (if wk b = Some s then Some (CHR ''K'')
      else if wr b = Some s then Some (CHR ''R'')
      else if bk b = Some s then Some (CHR ''k'')
      else None)"

definition squares_180 :: "square list" where
  "squares_180 = concat (map (\<lambda>r. map (\<lambda>f. 8 * r + f) [0 ..< 8]) (rev [0 ..< 8]))"

fun board_fen_from :: "board \<Rightarrow> square list \<Rightarrow> nat \<Rightarrow> string" where
  "board_fen_from b [] n = []"
| "board_fen_from b (s # rest) n =
     (let (out, n1) =
            (case piece_symbol b s of
               None \<Rightarrow> ([], n + 1)
             | Some c \<Rightarrow> ((if n \<noteq> 0 then str_nat n else []) @ [c], 0));
          (out2, n2) =
            (if square_file s = 7
             then ((if n1 \<noteq> 0 then str_nat n1 else []) @ (if s \<noteq> 7 then ''/'' else []), 0)
             else ([], n1))
      in out @ out2 @ board_fen_from b rest n2)"

definition fen_string :: "board \<Rightarrow> string" where
  "fen_string b =
     board_fen_from b squares_180 0 @ '' '' @ (case turn b of WHITE \<Rightarrow> ''w'' | BLACK \<Rightarrow> ''b'')
     @ '' - - '' @ str_nat (halfmove_clock b) @ '' '' @ str_nat (fullmove_number b)"

section \<open>The enumerators\<close>

text \<open>\<^verbatim>\<open>TablebaseGenerator._generate_all_positions\<close> (tablebase\_generator\_fixed.py): the
  list of the FENs of all placements it keeps, in loop order. \<open>positions_at\<close> is the body
  of the innermost loop over the three squares.\<close>

definition positions_at :: "square \<Rightarrow> square \<Rightarrow> square \<Rightarrow> fen list" where
  "positions_at wk_sq wr_sq bk_sq =
     (if wk_sq = wr_sq \<or> wk_sq = bk_sq \<or> wr_sq = bk_sq then []
      else if \<bar>int (wk_sq div 8) - int (bk_sq div 8)\<bar> \<le> 1 \<and>
              \<bar>int (wk_sq mod 8) - int (bk_sq mod 8)\<bar> \<le> 1 then []
      else concat (map (\<lambda>turn.
             if turn = WHITE \<and> is_attacked_by (krk_board wk_sq wr_sq bk_sq turn) BLACK wk_sq
             then [] else [krk_board wk_sq wr_sq bk_sq turn]) [WHITE, BLACK]))"

definition generate_all_positions :: "fen list" where
  "generate_all_positions =
     concat (map (\<lambda>wk_sq. concat (map (\<lambda>wr_sq. concat (map (\<lambda>bk_sq.
       positions_at wk_sq wr_sq bk_sq) [0 ..< 64])) [0 ..< 64])) [0 ..< 64])"

text \<open>\<^verbatim>\<open>ChessEngine.generate_all_krk_positions\<close> (chess\_engine.py) differs: with White
  to move it also drops the placements in which the black king is attacked, and with
  Black to move those in which the white king is.\<close>

definition krk_positions_at :: "square \<Rightarrow> square \<Rightarrow> square \<Rightarrow> fen list" where
  "krk_positions_at wk_sq wr_sq bk_sq =
     (if wk_sq = wr_sq \<or> wk_sq = bk_sq \<or> wr_sq = bk_sq then []
      else if \<bar>int (wk_sq div 8) - int (bk_sq div 8)\<bar> \<le> 1 \<and>
              \<bar>int (wk_sq mod 8) - int (bk_sq mod 8)\<bar> \<le> 1 then []
      else concat (map (\<lambda>turn.
             if turn = WHITE \<and> is_attacked_by (krk_board wk_sq wr_sq bk_sq turn) WHITE bk_sq
             then []
             else if turn = BLACK \<and> is_attacked_by (krk_board wk_sq wr_sq bk_sq turn) BLACK wk_sq
             then []
             else [krk_board wk_sq wr_sq bk_sq turn]) [WHITE, BLACK]))"

definition generate_all_krk_positions :: "fen list" where
  "generate_all_krk_positions =
     concat (map (\<lambda>wk_sq. concat (map (\<lambda>wr_sq. concat (map (\<lambda>bk_sq.
       krk_positions_at wk_sq wr_sq bk_sq) [0 ..< 64])) [0 ..< 64])) [0 ..< 64])"

section \<open>The store and its construction\<close>

text \<open>An entry is the pair \<^verbatim>\<open>(dtm, best_move)\<close>: \<^verbatim>\<open>dtm\<close> is an integer or the string
  \<^verbatim>\<open>'DRAW'\<close>, \<^verbatim>\<open>best_move\<close> a UCI string or \<^verbatim>\<open>None\<close>. The only integers the code
  writes are \<^verbatim>\<open>0\<close> and the running \<^verbatim>\<open>current_dtm\<close>, which starts at 1.\<close>

datatype dtm = MATE nat | DRAW

type_synonym entry = "dtm \<times> string option"

type_synonym tablebase = "fen \<rightharpoonup> entry"

text \<open>Steps 2 and 3 of \<^verbatim>\<open>generate_krk_tablebase\<close>.\<close>

definition label_checkmates :: "fen list \<Rightarrow> tablebase \<Rightarrow> tablebase" where
  "label_checkmates all_positions tb =
     foldl (\<lambda>tb fen. if is_checkmate fen then tb(fen \<mapsto> (MATE 0, None)) else tb) tb all_positions"

definition label_stalemates :: "fen list \<Rightarrow> tablebase \<Rightarrow> tablebase" where
  "label_stalemates all_positions tb =
     foldl (\<lambda>tb fen. if is_stalemate fen then tb(fen \<mapsto> (DRAW, None)) else tb) tb all_positions"

text \<open>The White branch of \<^verbatim>\<open>_backward_induction_fixed\<close>: the loop over the legal moves
  keeps the first move to a stored successor of least DTM; \<^verbatim>\<open>float('inf')\<close> is \<open>\<infinity>\<close>.
  The successor is looked up under \<^verbatim>\<open>board.fen()\<close> taken after \<^verbatim>\<open>board.push(move)\<close>.\<close>

definition white_step ::
  "tablebase \<Rightarrow> board \<Rightarrow> string option \<times> enat \<Rightarrow> move \<Rightarrow> string option \<times> enat" where
  "white_step tb board st move =
     (let (best_move, best_dtm) = st in
      case tb (push board move) of
        None \<Rightarrow> (best_move, best_dtm)
      | Some (DRAW, _) \<Rightarrow> (best_move, best_dtm)
      | Some (MATE next_dtm, _) \<Rightarrow>
          if enat next_dtm < best_dtm then (Some (uci move), enat next_dtm)
          else (best_move, best_dtm))"

definition white_scan :: "tablebase \<Rightarrow> board \<Rightarrow> string option \<times> enat" where
  "white_scan tb board = foldl (white_step tb board) (None, \<infinity>) (legal_moves board)"

text \<open>The Black branch: the first loop stops (\<^verbatim>\<open>break\<close>) at the first successor that is
  not stored or is a draw; the second loop takes the first move reaching \<^verbatim>\<open>worst_dtm\<close>.\<close>

fun black_scan :: "tablebase \<Rightarrow> board \<Rightarrow> move list \<Rightarrow> nat \<Rightarrow> bool \<times> nat" where
  "black_scan tb board [] worst_dtm = (True, worst_dtm)"
| "black_scan tb board (move # rest) worst_dtm =
     (case tb (push board move) of
        None \<Rightarrow> (False, worst_dtm)
      | Some (DRAW, _) \<Rightarrow> (False, worst_dtm)
      | Some (MATE next_dtm, _) \<Rightarrow>
          black_scan tb board rest (if next_dtm > worst_dtm then next_dtm else worst_dtm))"

fun best_defense :: "tablebase \<Rightarrow> board \<Rightarrow> move list \<Rightarrow> nat \<Rightarrow> string option" where
  "best_defense tb board [] worst_dtm = None"
| "best_defense tb board (move # rest) worst_dtm =
     (case tb (push board move) of
        Some (MATE next_dtm, _) \<Rightarrow>
          if next_dtm = worst_dtm then Some (uci move) else best_defense tb board rest worst_dtm
      | _ \<Rightarrow> best_defense tb board rest worst_dtm)"

text \<open>Python's truth value of \<^verbatim>\<open>best_move\<close>: neither \<^verbatim>\<open>None\<close> nor the empty string.\<close>

definition truthy :: "string option \<Rightarrow> bool" where
  "truthy x = (case x of None \<Rightarrow> False | Some s \<Rightarrow> s \<noteq> [])"

text \<open>The body of the loop over \<^verbatim>\<open>all_positions\<close> for one FEN; the state is the store
  and the flag \<^verbatim>\<open>positions_found_last_iteration\<close>. The list \<^verbatim>\<open>new_positions\<close> only feeds
  a printed count and is left out.\<close>

definition try_position :: "nat \<Rightarrow> tablebase \<times> bool \<Rightarrow> fen \<Rightarrow> tablebase \<times> bool" where
  "try_position current_dtm st fen =
     (let (tb, found) = st in
      if tb fen \<noteq> None then (tb, found)
      else if turn fen = WHITE then
        (let (best_move, best_dtm) = white_scan tb fen in
         if truthy best_move \<and> best_dtm = enat (current_dtm - 1)
         then (tb(fen \<mapsto> (MATE current_dtm, best_move)), True)
         else (tb, found))
      else if legal_moves fen = [] then (tb, found)
      else
        (let (all_moves_lose, worst_dtm) = black_scan tb fen (legal_moves fen) 0 in
         if all_moves_lose \<and> worst_dtm = current_dtm - 1
         then (tb(fen \<mapsto> (MATE current_dtm, best_defense tb fen (legal_moves fen) worst_dtm)), True)
         else (tb, found)))"

text \<open>One pass of the \<^verbatim>\<open>while\<close> loop, the flag reset at its start.\<close>

definition induction_pass :: "fen list \<Rightarrow> nat \<Rightarrow> tablebase \<Rightarrow> tablebase \<times> bool" where
  "induction_pass all_positions current_dtm tb =
     foldl (try_position current_dtm) (tb, False) all_positions"

text \<open>The \<^verbatim>\<open>while\<close> loop; it returns the final \<^verbatim>\<open>current_dtm\<close>, which is the number of
  passes made, and the store.\<close>

function induction_loop :: "fen list \<Rightarrow> nat \<Rightarrow> bool \<Rightarrow> tablebase \<Rightarrow> nat \<times> tablebase" where
  "induction_loop all_positions current_dtm found tb =
     (if found \<and> current_dtm < 50
      then (let (tb', found') = induction_pass all_positions (current_dtm + 1) tb
            in induction_loop all_positions (current_dtm + 1) found' tb')
      else (current_dtm, tb))"
  by pat_completeness auto
termination
  by (relation "measure (\<lambda>(ps, d, f, tb). 50 - d)") auto

text \<open>The closing loop that marks what is left as a draw.\<close>

definition mark_draws :: "fen list \<Rightarrow> tablebase \<Rightarrow> tablebase" where
  "mark_draws all_positions tb =
     foldl (\<lambda>tb fen. if tb fen = None then tb(fen \<mapsto> (DRAW, None)) else tb) tb all_positions"

definition backward_induction_fixed :: "fen list \<Rightarrow> tablebase \<Rightarrow> tablebase" where
  "backward_induction_fixed all_positions tb =
     mark_draws all_positions (snd (induction_loop all_positions 0 True tb))"

text \<open>\<^verbatim>\<open>TablebaseGenerator.generate_krk_tablebase\<close>, from the empty store of \<^verbatim>\<open>__init__\<close>.\<close>

definition generate_krk_tablebase :: tablebase where
  "generate_krk_tablebase =
     (let all_positions = generate_all_positions;
          tb1 = label_checkmates all_positions Map.empty;
          tb2 = label_stalemates all_positions tb1
      in backward_induction_fixed all_positions tb2)"

text \<open>\<^verbatim>\<open>TablebaseGenerator.query_position\<close>: it reads the store and returns a message; the
  store is returned with it to show that it is not written.\<close>

definition str_move :: "string option \<Rightarrow> string" where
  "str_move x = (case x of None \<Rightarrow> ''None'' | Some s \<Rightarrow> s)"

definition query_position :: "tablebase \<Rightarrow> fen \<Rightarrow> tablebase \<times> string" where
  "query_position tb fen =
     (case tb fen of
        Some (dtm, best_move) \<Rightarrow>
          (case dtm of
             DRAW \<Rightarrow> (tb, ''Position is a draw'')
           | MATE n \<Rightarrow> (tb, ''Mate in '' @ str_nat n @ '' moves. Best move: '' @ str_move best_move))
      | None \<Rightarrow> (tb, ''Position not found in tablebase''))"

section \<open>The heuristic generator\<close>

text \<open>\<^verbatim>\<open>OptimizedTablebaseGenerator\<close> (chess\_solver\_optimized.py). Its enumerator builds
  the same FENs as a Python \<^verbatim>\<open>set\<close>, whose iteration order is not fixed by the code: the
  functions below take the positions as a list \<open>all_positions\<close> in whichever order the
  set is iterated.\<close>

definition simple_label_terminals :: "fen list \<Rightarrow> tablebase \<Rightarrow> tablebase" where
  "simple_label_terminals all_positions tb =
     foldl (\<lambda>tb fen. if is_checkmate fen then tb(fen \<mapsto> (MATE 0, None))
                      else if is_stalemate fen then tb(fen \<mapsto> (DRAW, None))
                      else tb) tb all_positions"

text \<open>\<^verbatim>\<open>_is_near_mate\<close> and \<^verbatim>\<open>_get_best_move_simple\<close>: again the successor is looked up
  under \<^verbatim>\<open>board.fen()\<close> after \<^verbatim>\<open>board.push(move)\<close>.\<close>

definition is_near_mate :: "tablebase \<Rightarrow> board \<Rightarrow> bool" where
  "is_near_mate tb board = list_ex (\<lambda>move. tb (push board move) \<noteq> None) (legal_moves board)"

definition get_best_move_simple :: "tablebase \<Rightarrow> board \<Rightarrow> string option" where
  "get_best_move_simple tb board =
     (case find (\<lambda>move. tb (push board move) \<noteq> None) (legal_moves board) of
        Some move \<Rightarrow> Some (uci move)
      | None \<Rightarrow> (case legal_moves board of [] \<Rightarrow> None | move # _ \<Rightarrow> Some (uci move)))"

definition simple_check :: "nat \<Rightarrow> tablebase \<times> nat \<Rightarrow> fen \<Rightarrow> tablebase \<times> nat" where
  "simple_check iteration st fen =
     (let (tb, new_found) = st in
      if tb fen \<noteq> None then (tb, new_found)
      else if is_near_mate tb fen
      then (tb(fen \<mapsto> (MATE iteration, get_best_move_simple tb fen)), new_found + 1)
      else (tb, new_found))"

text \<open>Python's slice \<^verbatim>\<open>xs[:n]\<close>, which drops from the end when \<open>n\<close> is negative.\<close>

definition slice_to :: "int \<Rightarrow> 'a list \<Rightarrow> 'a list" where
  "slice_to n xs = (if 0 \<le> n then take (nat n) xs else take (length xs - nat (- n)) xs)"

text \<open>The \<^verbatim>\<open>while\<close> loop of \<^verbatim>\<open>_simple_backward_induction\<close>; \<open>known\<close> is the key set taken
  once before the loop and never updated.\<close>

function simple_loop :: "fen list \<Rightarrow> fen set \<Rightarrow> nat \<Rightarrow> tablebase \<Rightarrow> tablebase" where
  "simple_loop all_positions known iteration tb =
     (if iteration < 10
      then (let iteration' = iteration + 1;
                sample_size = min 1000 (int (length all_positions) - int (card known));
                positions_to_check =
                  slice_to sample_size (filter (\<lambda>p. p \<notin> known) all_positions);
                (tb', new_found) = foldl (simple_check iteration') (tb, 0) positions_to_check
            in if new_found = 0 then tb' else simple_loop all_positions known iteration' tb')
      else tb)"
  by pat_completeness auto
termination
  by (relation "measure (\<lambda>(ps, known, i, tb). 10 - i)") auto

definition simple_backward_induction :: "fen list \<Rightarrow> tablebase \<Rightarrow> tablebase" where
  "simple_backward_induction all_positions tb =
     mark_draws all_positions (simple_loop all_positions (dom tb) 0 tb)"

definition generate_tablebase_simple :: "fen list \<Rightarrow> tablebase" where
  "generate_tablebase_simple all_positions =
     simple_backward_induction all_positions (simple_label_terminals all_positions Map.empty)"

section \<open>Notions used in the statements\<close>

text \<open>The keys the enumerator produces carry the counters \<^verbatim>\<open>0 1\<close> and a black king.\<close>

definition canonical :: "fen \<Rightarrow> bool" where
  "canonical k \<longleftrightarrow> halfmove_clock k = 0 \<and> fullmove_number k = 1 \<and> bk k \<noteq> None"

definition stored_canonical :: "tablebase \<Rightarrow> bool" where
  "stored_canonical tb \<longleftrightarrow> (\<forall>k. tb k \<noteq> None \<longrightarrow> canonical k)"

text \<open>The DTM the loop reads for the successor of a move: \<^verbatim>\<open>self.tablebase[next_fen][0]\<close>
  when \<^verbatim>\<open>next_fen\<close> is stored with a number, nothing when it is absent or a draw.\<close>

definition successor_dtm :: "tablebase \<Rightarrow> board \<Rightarrow> move \<Rightarrow> nat option" where
  "successor_dtm tb board move =
     (case tb (push board move) of Some (MATE n, _) \<Rightarrow> Some n | _ \<Rightarrow> None)"

text \<open>The store after steps 2 and 3 of \<^verbatim>\<open>generate_krk_tablebase\<close>, before the induction.\<close>

definition terminal_store :: tablebase where
  "terminal_store =
     label_stalemates generate_all_positions (label_checkmates generate_all_positions Map.empty)"

text \<open>What the White loop holds after the moves \<open>ms\<close>: nothing when none of them leads
  to a stored MATE successor, otherwise one of them together with the least DTM found.\<close>

definition white_inv :: "tablebase \<Rightarrow> board \<Rightarrow> move list \<Rightarrow> string option \<times> enat \<Rightarrow> bool" where
  "white_inv tb b ms acc \<longleftrightarrow>
     (acc = (None, \<infinity>) \<and> (\<forall>m \<in> set ms. successor_dtm tb b m = None)) \<or>
     (\<exists>m n. acc = (Some (uci m), enat n) \<and> m \<in> set ms \<and> successor_dtm tb b m = Some n \<and>
        (\<forall>m' \<in> set ms. \<forall>n'. successor_dtm tb b m' = Some n' \<longrightarrow> n \<le> n'))"

text \<open>The two properties of entries that the statements about the finished store use: a best
  move is present exactly for a positive DTM, and the parity of a DTM follows the side to
  move.\<close>

definition best_moves_ok :: "tablebase \<Rightarrow> bool" where
  "best_moves_ok tb \<longleftrightarrow>
     (\<forall>k v best_move. tb k = Some (v, best_move) \<longrightarrow>
        (best_move \<noteq> None \<longleftrightarrow> (\<exists>d. 0 < d \<and> v = MATE d)))"

definition parity_ok :: "tablebase \<Rightarrow> bool" where
  "parity_ok tb \<longleftrightarrow>
     (\<forall>k d best_move. tb k = Some (MATE d, best_move) \<longrightarrow> (turn k = WHITE \<longleftrightarrow> odd d))"

section \<open>The successor lookup never hits\<close>

text \<open>Every stored key comes from the enumerator and so carries the counters \<^verbatim>\<open>0 1\<close>,
  while \<^verbatim>\<open>board.fen()\<close> after \<^verbatim>\<open>board.push(move)\<close> carries a halfmove clock of 1, or a
  fullmove number of 2, or lacks the captured black king. Hence no lookup of a successor
  finds an entry, and the induction labels nothing.\<close>

declare induction_loop.simps [simp del]

declare simple_loop.simps [simp del]

lemma legal_move_distinct: "m \<in> set (legal_moves b) \<Longrightarrow> fst m \<noteq> snd m"
  by (auto simp: legal_moves_def generate_pseudo_legal_moves_def moves_from_def
      generate_evasions_def capture_checker_def piece_attacks_def king_attacks_def
      rook_attacks_def split: option.splits if_splits color.splits)

lemma push_not_canonical:
  assumes "canonical b" "m \<in> set (legal_moves b)"
  shows "\<not> canonical (push b m)"
proof (cases "turn b")
  case BLACK
  with assms(1) show ?thesis by (simp add: canonical_def push_def)
next
  case WHITE
  from assms(2) have d: "fst m \<noteq> snd m" by (rule legal_move_distinct)
  show ?thesis
  proof (cases "is_capture b m")
    case True
    with WHITE have "bk b = Some (snd m)" by (simp add: is_capture_def)
    with d have "bk (push b m) = None" by (auto simp: push_def relocate_def)
    then show ?thesis by (simp add: canonical_def)
  next
    case False
    then show ?thesis by (simp add: canonical_def push_def)
  qed
qed

lemma successor_absent:
  "stored_canonical tb \<Longrightarrow> canonical b \<Longrightarrow> m \<in> set (legal_moves b) \<Longrightarrow> tb (push b m) = None"
proof -
  assume s: "stored_canonical tb" and "canonical b" "m \<in> set (legal_moves b)"
  then have "\<not> canonical (push b m)" by (simp add: push_not_canonical)
  with s show ?thesis unfolding stored_canonical_def by blast
qed

lemma white_fold_absent:
  "\<forall>m \<in> set ms. tb (push b m) = None \<Longrightarrow> foldl (white_step tb b) acc ms = acc"
  by (induction ms arbitrary: acc) (auto simp: white_step_def split: prod.splits)

lemma white_scan_absent:
  "\<forall>m \<in> set (legal_moves b). tb (push b m) = None \<Longrightarrow> white_scan tb b = (None, \<infinity>)"
  unfolding white_scan_def by (rule white_fold_absent)

lemma black_scan_absent:
  "ms \<noteq> [] \<Longrightarrow> tb (push b (hd ms)) = None \<Longrightarrow> black_scan tb b ms w = (False, w)"
  by (cases ms) auto

lemma try_position_noop:
  assumes "stored_canonical tb" "canonical fen"
  shows "try_position d (tb, found) fen = (tb, found)"
proof -
  have a: "\<forall>m \<in> set (legal_moves fen). tb (push fen m) = None"
    using assms successor_absent by blast
  show ?thesis
  proof (cases "legal_moves fen = []")
    case True
    then show ?thesis
      by (simp add: try_position_def white_scan_def truthy_def)
  next
    case False
    then have "tb (push fen (hd (legal_moves fen))) = None" using a by simp
    with False have "black_scan tb fen (legal_moves fen) 0 = (False, 0)"
      by (rule black_scan_absent)
    then show ?thesis using a
      by (simp add: try_position_def white_scan_absent truthy_def)
  qed
qed

lemma pass_fold_noop:
  "stored_canonical tb \<Longrightarrow> \<forall>p \<in> set ps. canonical p \<Longrightarrow>
   foldl (try_position d) (tb, found) ps = (tb, found)"
  by (induction ps) (simp_all add: try_position_noop)

lemma induction_pass_noop:
  "stored_canonical tb \<Longrightarrow> \<forall>p \<in> set ps. canonical p \<Longrightarrow> induction_pass ps d tb = (tb, False)"
  unfolding induction_pass_def by (rule pass_fold_noop)

lemma induction_loop_once:
  assumes "stored_canonical tb" "\<forall>p \<in> set ps. canonical p"
  shows "induction_loop ps 0 True tb = (1, tb)"
proof -
  have "induction_loop ps 0 True tb = induction_loop ps 1 False tb"
    using induction_pass_noop [OF assms, of 1] by (subst induction_loop.simps) simp
  also have "\<dots> = (1, tb)" by (subst induction_loop.simps) simp
  finally show ?thesis .
qed

lemma foldl_cond_upd:
  "foldl (\<lambda>tb k. if P k then tb(k \<mapsto> v) else tb) tb ps =
   (\<lambda>k. if k \<in> set ps \<and> P k then Some v else tb k)"
  by (induction ps arbitrary: tb) (auto simp: fun_eq_iff)

lemma label_checkmates_eq:
  "label_checkmates ps tb = (\<lambda>k. if k \<in> set ps \<and> is_checkmate k then Some (MATE 0, None) else tb k)"
  unfolding label_checkmates_def by (rule foldl_cond_upd)

lemma label_stalemates_eq:
  "label_stalemates ps tb = (\<lambda>k. if k \<in> set ps \<and> is_stalemate k then Some (DRAW, None) else tb k)"
  unfolding label_stalemates_def by (rule foldl_cond_upd)

lemma mark_draws_eq:
  "mark_draws ps tb = (\<lambda>k. if k \<in> set ps \<and> tb k = None then Some (DRAW, None) else tb k)"
  unfolding mark_draws_def by (induction ps arbitrary: tb) (auto simp: fun_eq_iff)

lemma krk_board_eq [simp]:
  "krk_board a r q t = krk_board a' r' q' t' \<longleftrightarrow> a = a' \<and> r = r' \<and> q = q' \<and> t = t'"
  by (auto simp: krk_board_def)

lemma not_WHITE [simp]: "(t \<noteq> WHITE) = (t = BLACK)"
  by (cases t) auto

lemma not_BLACK [simp]: "(t \<noteq> BLACK) = (t = WHITE)"
  by (cases t) auto

lemma in_positions_at:
  "k \<in> set (positions_at a r q) \<longleftrightarrow>
   a \<noteq> r \<and> a \<noteq> q \<and> r \<noteq> q \<and>
   \<not> (\<bar>int (a div 8) - int (q div 8)\<bar> \<le> 1 \<and> \<bar>int (a mod 8) - int (q mod 8)\<bar> \<le> 1) \<and>
   (\<exists>t. k = krk_board a r q t \<and> (t = WHITE \<longrightarrow> \<not> is_attacked_by (krk_board a r q t) BLACK a))"
  unfolding positions_at_def by (cases "is_attacked_by (krk_board a r q WHITE) BLACK a") auto

lemma in_positions_iff:
  "k \<in> set generate_all_positions \<longleftrightarrow>
   (\<exists>a r q. a < 64 \<and> r < 64 \<and> q < 64 \<and> k \<in> set (positions_at a r q))"
  unfolding generate_all_positions_def by (auto simp: Bex_def)


lemma positions_canonical: "k \<in> set generate_all_positions \<Longrightarrow> canonical k"
  by (auto simp: in_positions_iff in_positions_at canonical_def krk_board_def)

lemma checkmate_not_stalemate: "is_checkmate k \<Longrightarrow> \<not> is_stalemate k"
  by (simp add: is_checkmate_def is_stalemate_def)

lemma terminal_store_eq:
  "terminal_store =
   (\<lambda>k. if k \<in> set generate_all_positions \<and> is_checkmate k then Some (MATE 0, None)
        else if k \<in> set generate_all_positions \<and> is_stalemate k then Some (DRAW, None)
        else None)"
  unfolding terminal_store_def label_stalemates_eq label_checkmates_eq
  by (auto simp: fun_eq_iff dest: checkmate_not_stalemate)

lemma terminal_store_canonical: "stored_canonical terminal_store"
  unfolding stored_canonical_def terminal_store_eq
  by (auto simp: positions_canonical split: if_splits)

lemma generate_krk_tablebase_loop:
  "induction_loop generate_all_positions 0 True terminal_store = (1, terminal_store)"
  by (rule induction_loop_once [OF terminal_store_canonical]) (simp add: positions_canonical)

lemma generate_krk_tablebase_unfold:
  "generate_krk_tablebase = mark_draws generate_all_positions terminal_store"
proof -
  have "generate_krk_tablebase = backward_induction_fixed generate_all_positions terminal_store"
    by (simp add: generate_krk_tablebase_def Let_def terminal_store_def)
  then show ?thesis
    by (simp add: backward_induction_fixed_def generate_krk_tablebase_loop)
qed

lemma generate_krk_tablebase_eq:
  "generate_krk_tablebase =
   (\<lambda>k. if k \<in> set generate_all_positions
        then (if is_checkmate k then Some (MATE 0, None) else Some (DRAW, None))
        else None)"
  unfolding generate_krk_tablebase_unfold mark_draws_eq terminal_store_eq
  by (auto simp: fun_eq_iff)


section \<open>Membership in the enumeration\<close>

lemma square_distance_ge2:
  "2 \<le> square_distance a q \<longleftrightarrow>
   \<not> (\<bar>int (a div 8) - int (q div 8)\<bar> \<le> 1 \<and> \<bar>int (a mod 8) - int (q mod 8)\<bar> \<le> 1)"
proof -
  have "2 \<le> max x y \<longleftrightarrow> \<not> (x \<le> 1 \<and> y \<le> 1)" for x y :: int
    by linarith
  then show ?thesis
    by (simp only: square_distance_def square_rank_def square_file_def)
qed

lemma square_distance_sym: "square_distance a q = square_distance q a"
  by (simp add: square_distance_def abs_minus_commute)

lemma black_attack_krk:
  "is_attacked_by (krk_board a r q t) BLACK s \<longleftrightarrow> king_attacks q s"
  by (simp add: is_attacked_by_def krk_board_def)

lemma far_kings_not_attacked:
  "2 \<le> square_distance a q \<Longrightarrow> \<not> king_attacks q a"
  by (simp add: king_attacks_def square_distance_sym)

lemma krk_board_in_positions:
  "krk_board a r q t \<in> set generate_all_positions \<longleftrightarrow>
   a < 64 \<and> r < 64 \<and> q < 64 \<and> a \<noteq> r \<and> r \<noteq> q \<and> a \<noteq> q \<and> 2 \<le> square_distance a q"
proof -
  have "krk_board a r q t \<in> set generate_all_positions \<longleftrightarrow>
        a < 64 \<and> r < 64 \<and> q < 64 \<and> a \<noteq> r \<and> a \<noteq> q \<and> r \<noteq> q \<and> 2 \<le> square_distance a q \<and>
        (t = WHITE \<longrightarrow> \<not> king_attacks q a)"
    unfolding in_positions_iff in_positions_at square_distance_ge2 [symmetric] black_attack_krk
    by auto
  then show ?thesis using far_kings_not_attacked [of a q] by auto
qed

lemma positions_are_krk:
  "k \<in> set generate_all_positions \<Longrightarrow>
   \<exists>a r q t. k = krk_board a r q t \<and> 2 \<le> square_distance a q"
  unfolding in_positions_iff in_positions_at square_distance_ge2 [symmetric] by auto


section \<open>The enumerator\<close>




section \<open>Queries\<close>

text \<open>
  Claim C7. A query for a key that is absent from the store returns the message
  \<^verbatim>\<open>Position not found in tablebase\<close>; a query returns the store as it was, whatever
  the key; and a board whose kings stand on adjacent squares is absent from the
  constructed store, so that a query for it returns that message.
\<close>

theorem query_absent_not_found:
  "(tb fen = None \<longrightarrow> query_position tb fen = (tb, ''Position not found in tablebase'')) \<and>
   fst (query_position tb fen) = tb \<and>
   (wk k = Some a \<and> bk k = Some q \<and> square_distance a q \<le> 1 \<longrightarrow>
      generate_krk_tablebase k = None \<and>
      query_position generate_krk_tablebase k =
        (generate_krk_tablebase, ''Position not found in tablebase''))"
proof (intro conjI impI)
  show "fst (query_position tb fen) = tb"
    by (simp add: query_position_def split: option.splits dtm.splits prod.splits)
  show "query_position tb fen = (tb, ''Position not found in tablebase'')" if "tb fen = None"
    using that by (simp add: query_position_def)
  assume h: "wk k = Some a \<and> bk k = Some q \<and> square_distance a q \<le> 1"
  have "k \<notin> set generate_all_positions"
  proof
    assume "k \<in> set generate_all_positions"
    then obtain a' r' q' t' where "k = krk_board a' r' q' t'" "2 \<le> square_distance a' q'"
      using positions_are_krk by blast
    with h show False by (simp add: krk_board_def)
  qed
  then show n: "generate_krk_tablebase k = None"
    by (simp add: generate_krk_tablebase_eq)
  then show "query_position generate_krk_tablebase k =
        (generate_krk_tablebase, ''Position not found in tablebase'')"
    by (simp add: query_position_def)
qed

theorem query_absent_not_found_witness:
  "square_distance 27 28 \<le> 1 \<and>
   generate_krk_tablebase (krk_board 27 0 28 WHITE) = None \<and>
   query_position generate_krk_tablebase (krk_board 27 0 28 WHITE) =
     (generate_krk_tablebase, ''Position not found in tablebase'') \<and>
   query_position Map.empty (krk_board 27 0 28 WHITE) =
     (Map.empty, ''Position not found in tablebase'')"
proof -
  have d: "square_distance 27 28 \<le> 1" by code_simp
  show ?thesis
    using d query_absent_not_found [of Map.empty "krk_board 27 0 28 WHITE"
        "krk_board 27 0 28 WHITE" 27 28]
    by (simp add: krk_board_def)
qed

section \<open>The Black rule of the induction\<close>

lemma successor_dtm_Some:
  "successor_dtm tb b m = Some n \<longleftrightarrow> (\<exists>mv. tb (push b m) = Some (MATE n, mv))"
  by (auto simp: successor_dtm_def split: option.splits dtm.splits)

lemma successor_dtm_None:
  "successor_dtm tb b m = None \<longleftrightarrow>
   tb (push b m) = None \<or> (\<exists>mv. tb (push b m) = Some (DRAW, mv))"
  by (auto simp: successor_dtm_def split: option.splits dtm.splits)

lemma black_scan_all:
  "\<forall>m \<in> set ms. successor_dtm tb b m \<noteq> None \<Longrightarrow>
   black_scan tb b ms w = (True, fold max (map (\<lambda>m. the (successor_dtm tb b m)) ms) w)"
proof (induction ms arbitrary: w)
  case Nil
  then show ?case by simp
next
  case (Cons m ms)
  from Cons.prems obtain n where n: "successor_dtm tb b m = Some n" by auto
  then obtain mv where s: "tb (push b m) = Some (MATE n, mv)"
    by (auto simp: successor_dtm_Some)
  have "black_scan tb b (m # ms) w = black_scan tb b ms (max n w)"
    using s by (simp add: max_def)
  then show ?case using Cons n by simp
qed

lemma black_scan_some_none:
  "\<exists>m \<in> set ms. successor_dtm tb b m = None \<Longrightarrow> fst (black_scan tb b ms w) = False"
proof (induction ms arbitrary: w)
  case Nil
  then show ?case by simp
next
  case (Cons m ms)
  show ?case
  proof (cases "successor_dtm tb b m")
    case None
    then show ?thesis
      by (auto simp: successor_dtm_None)
  next
    case (Some n)
    then obtain mv where s: "tb (push b m) = Some (MATE n, mv)"
      by (auto simp: successor_dtm_Some)
    from Some Cons.prems have "\<exists>m \<in> set ms. successor_dtm tb b m = None" by auto
    then show ?thesis using s Cons.IH by simp
  qed
qed

lemma fold_max_zero:
  "xs \<noteq> [] \<Longrightarrow> fold max xs (0::nat) = Max (set xs)"
proof -
  assume "xs \<noteq> []"
  then obtain y ys where xs: "xs = y # ys" by (cases xs) auto
  have "fold max xs 0 = fold max ys (max y 0)" by (simp add: xs)
  also have "\<dots> = fold max ys y" by simp
  also have "\<dots> = Max (set (y # ys))" by (simp only: Max.set_eq_fold)
  finally show ?thesis by (simp add: xs)
qed

lemma best_defense_found:
  "\<exists>m \<in> set ms. successor_dtm tb b m = Some w \<Longrightarrow>
   \<exists>m \<in> set ms. best_defense tb b ms w = Some (uci m) \<and> successor_dtm tb b m = Some w"
proof (induction ms)
  case Nil
  then show ?case by simp
next
  case (Cons m ms)
  show ?case
  proof (cases "successor_dtm tb b m = Some w")
    case True
    then show ?thesis by (auto simp: successor_dtm_Some)
  next
    case False
    with Cons.prems have "\<exists>m \<in> set ms. successor_dtm tb b m = Some w" by auto
    then obtain m' where m': "m' \<in> set ms" "best_defense tb b ms w = Some (uci m')"
      "successor_dtm tb b m' = Some w" using Cons.IH by blast
    have "best_defense tb b (m # ms) w = best_defense tb b ms w"
      using False by (auto simp: successor_dtm_def split: option.splits dtm.splits)
    with m' show ?thesis by auto
  qed
qed

lemma black_try:
  assumes "turn p = BLACK" "tb p = None"
  shows "try_position c (tb, found) p =
     (if legal_moves p \<noteq> [] \<and> (\<forall>m \<in> set (legal_moves p). successor_dtm tb p m \<noteq> None) \<and>
         Max ((\<lambda>m. the (successor_dtm tb p m)) ` set (legal_moves p)) = c - 1
      then (tb(p \<mapsto> (MATE c, best_defense tb p (legal_moves p) (c - 1))), True)
      else (tb, found))"
proof (cases "legal_moves p = []")
  case True
  then show ?thesis using assms by (simp add: try_position_def)
next
  case ne: False
  show ?thesis
  proof (cases "\<forall>m \<in> set (legal_moves p). successor_dtm tb p m \<noteq> None")
    case True
    have "black_scan tb p (legal_moves p) 0 =
          (True, Max ((\<lambda>m. the (successor_dtm tb p m)) ` set (legal_moves p)))"
      using black_scan_all [OF True, of 0] fold_max_zero [of "map (\<lambda>m. the (successor_dtm tb p m)) (legal_moves p)"] ne
      by simp
    then show ?thesis using assms ne True
      by (simp add: try_position_def)
  next
    case False
    then have "\<exists>m \<in> set (legal_moves p). successor_dtm tb p m = None" by simp
    then have "fst (black_scan tb p (legal_moves p) 0) = False"
      by (rule black_scan_some_none)
    then obtain w where "black_scan tb p (legal_moves p) 0 = (False, w)"
      by (cases "black_scan tb p (legal_moves p) 0") simp
    moreover have "\<not> (legal_moves p \<noteq> [] \<and>
         (\<forall>m \<in> set (legal_moves p). successor_dtm tb p m \<noteq> None) \<and>
         Max ((\<lambda>m. the (successor_dtm tb p m)) ` set (legal_moves p)) = c - 1)"
      using False by blast
    ultimately show ?thesis using assms ne
      by (simp only: try_position_def Let_def split if_False if_True) simp
  qed
qed

lemma Max_attained:
  "ms \<noteq> [] \<Longrightarrow> \<exists>m \<in> set ms. f m = Max (f ` set ms)"
proof -
  assume "ms \<noteq> []"
  then have "Max (f ` set ms) \<in> f ` set ms" by (intro Max_in) auto
  then show ?thesis by auto
qed


lemma final_draw_if_moves:
  assumes "p \<in> set generate_all_positions" "m \<in> set (legal_moves p)"
  shows "generate_krk_tablebase p = Some (DRAW, None)"
proof -
  have "\<not> is_checkmate p" using assms(2) by (auto simp: is_checkmate_def)
  then show ?thesis using assms(1) by (simp add: generate_krk_tablebase_eq)
qed

lemma black_try_Suc:
  assumes "turn p = BLACK" "tb p = None"
  shows "try_position (Suc d) (tb, found) p =
     (if legal_moves p \<noteq> [] \<and> (\<forall>m \<in> set (legal_moves p). successor_dtm tb p m \<noteq> None) \<and>
         Max ((\<lambda>m. the (successor_dtm tb p m)) ` set (legal_moves p)) = d
      then (tb(p \<mapsto> (MATE (Suc d), best_defense tb p (legal_moves p) d)), True)
      else (tb, found))"
  by (simp only: black_try [of p tb, OF assms] diff_Suc_1)

lemma black_rule_iff:
  assumes "turn p = BLACK" "tb p = None"
  shows "fst (try_position (Suc d) (tb, found) p) p \<noteq> None \<longleftrightarrow>
         legal_moves p \<noteq> [] \<and>
         (\<forall>m \<in> set (legal_moves p). successor_dtm tb p m \<noteq> None) \<and>
         Max ((\<lambda>m. the (successor_dtm tb p m)) ` set (legal_moves p)) = d"
  unfolding black_try_Suc [of p tb, OF assms] using assms(2) by (simp split: if_splits)

lemma black_rule_move:
  assumes "turn p = BLACK" "tb p = None"
    and l: "fst (try_position (Suc d) (tb, found) p) p \<noteq> None"
  shows "\<exists>m \<in> set (legal_moves p). successor_dtm tb p m = Some d \<and>
            try_position (Suc d) (tb, found) p =
              (tb(p \<mapsto> (MATE (Suc d), Some (uci m))), True)"
proof -
  from l have ne: "legal_moves p \<noteq> []"
    and al: "\<forall>m \<in> set (legal_moves p). successor_dtm tb p m \<noteq> None"
    and mx: "Max ((\<lambda>m. the (successor_dtm tb p m)) ` set (legal_moves p)) = d"
    unfolding black_rule_iff [of p tb, OF assms(1,2)] by blast+
  from ne obtain m0 where m0: "m0 \<in> set (legal_moves p)"
      "the (successor_dtm tb p m0) = Max ((\<lambda>m. the (successor_dtm tb p m)) ` set (legal_moves p))"
    using Max_attained [of "legal_moves p" "\<lambda>m. the (successor_dtm tb p m)"] by blast
  with al mx have "successor_dtm tb p m0 = Some d" by auto
  with m0 have "\<exists>m \<in> set (legal_moves p). successor_dtm tb p m = Some d" by blast
  then obtain m where m: "m \<in> set (legal_moves p)"
      "best_defense tb p (legal_moves p) d = Some (uci m)" "successor_dtm tb p m = Some d"
    using best_defense_found by blast
  have "try_position (Suc d) (tb, found) p =
      (tb(p \<mapsto> (MATE (Suc d), best_defense tb p (legal_moves p) d)), True)"
    unfolding black_try_Suc [of p tb, OF assms(1,2)] using ne al mx by simp
  with m show ?thesis by auto
qed




section \<open>Monotone saturation and termination\<close>

lemma try_position_cases:
  "try_position c (tb, f) p = (tb, f) \<or>
   (tb p = None \<and> (\<exists>mv. try_position c (tb, f) p = (tb(p \<mapsto> (MATE c, mv)), True)))"
  by (auto simp: try_position_def Let_def split: prod.splits)

lemma try_position_preserves:
  "tb k = Some e \<Longrightarrow> fst (try_position c (tb, f) p) k = Some e"
  using try_position_cases [of c tb f p] by auto

lemma try_position_flag:
  "snd (try_position c (tb, f) p) \<or> try_position c (tb, f) p = (tb, f)"
  using try_position_cases [of c tb f p] by auto

lemma try_position_flag_mono: "f \<Longrightarrow> snd (try_position c (tb, f) p)"
  using try_position_cases [of c tb f p] by auto

lemma try_position_labels:
  "\<not> f \<Longrightarrow> snd (try_position c (tb, f) p) \<Longrightarrow>
   \<exists>mv. fst (try_position c (tb, f) p) p = Some (MATE c, mv)"
  using try_position_cases [of c tb f p] by auto

lemma fold_preserves:
  "tb k = Some e \<Longrightarrow> fst (foldl (try_position c) (tb, f) ps) k = Some e"
proof (induction ps arbitrary: tb f)
  case Nil
  then show ?case by simp
next
  case (Cons p ps)
  obtain tb1 f1 where s: "try_position c (tb, f) p = (tb1, f1)"
    by (cases "try_position c (tb, f) p")
  then have "tb1 k = Some e" using try_position_preserves [of tb k e c f p] Cons.prems by simp
  then show ?case using Cons.IH s by simp
qed

lemma fold_flag_true:
  "snd (foldl (try_position c) (tb, True) ps)"
proof (induction ps arbitrary: tb)
  case Nil
  then show ?case by simp
next
  case (Cons p ps)
  obtain tb1 f1 where s: "try_position c (tb, True) p = (tb1, f1)"
    by (cases "try_position c (tb, True) p")
  then have "f1" using try_position_flag_mono [of True c tb p] by simp
  then show ?case using Cons.IH s by simp
qed

lemma fold_flag_false:
  "\<not> snd (foldl (try_position c) (tb, False) ps) \<Longrightarrow>
   foldl (try_position c) (tb, False) ps = (tb, False)"
proof (induction ps arbitrary: tb)
  case Nil
  then show ?case by simp
next
  case (Cons p ps)
  obtain tb1 f1 where s: "try_position c (tb, False) p = (tb1, f1)"
    by (cases "try_position c (tb, False) p")
  show ?case
  proof (cases f1)
    case True
    then have "snd (foldl (try_position c) (tb, False) (p # ps))"
      using s fold_flag_true by simp
    with Cons.prems show ?thesis by simp
  next
    case False
    then have "tb1 = tb" using s try_position_flag [of c tb False p] by auto
    then show ?thesis using Cons False s by simp
  qed
qed

lemma fold_labels:
  "snd (foldl (try_position c) (tb, False) ps) \<Longrightarrow>
   \<exists>k mv. fst (foldl (try_position c) (tb, False) ps) k = Some (MATE c, mv)"
proof (induction ps arbitrary: tb)
  case Nil
  then show ?case by simp
next
  case (Cons p ps)
  obtain tb1 f1 where s: "try_position c (tb, False) p = (tb1, f1)"
    by (cases "try_position c (tb, False) p")
  show ?case
  proof (cases f1)
    case True
    then obtain mv where "tb1 p = Some (MATE c, mv)"
      using s try_position_labels [of False c tb p] by auto
    then have "fst (foldl (try_position c) (tb1, f1) ps) p = Some (MATE c, mv)"
      by (rule fold_preserves)
    then show ?thesis using s by auto
  next
    case False
    then have "tb1 = tb" using s try_position_flag [of c tb False p] by auto
    then show ?thesis using Cons False s by simp
  qed
qed

lemma pass_preserves:
  "tb k = Some e \<Longrightarrow> fst (induction_pass ps c tb) k = Some e"
  unfolding induction_pass_def by (rule fold_preserves)

lemma pass_nothing_found:
  "\<not> snd (induction_pass ps c tb) \<Longrightarrow> induction_pass ps c tb = (tb, False)"
  unfolding induction_pass_def by (rule fold_flag_false)

lemma pass_found_labels:
  "snd (induction_pass ps c tb) \<Longrightarrow> \<exists>k mv. fst (induction_pass ps c tb) k = Some (MATE c, mv)"
  unfolding induction_pass_def by (rule fold_labels)

lemma loop_step:
  "found \<Longrightarrow> d < 50 \<Longrightarrow>
   induction_loop ps d found tb =
   induction_loop ps (Suc d) (snd (induction_pass ps (Suc d) tb)) (fst (induction_pass ps (Suc d) tb))"
  by (subst induction_loop.simps) (simp add: case_prod_beta)

lemma loop_stop:
  "\<not> (found \<and> d < 50) \<Longrightarrow> induction_loop ps d found tb = (d, tb)"
  by (subst induction_loop.simps) auto

lemma loop_preserves:
  "tb k = Some e \<Longrightarrow> snd (induction_loop ps d found tb) k = Some e"
proof (induction ps d found tb rule: induction_loop.induct)
  case (1 ps d found tb)
  show ?case
  proof (cases "found \<and> d < 50")
    case True
    obtain tb1 f1 where s: "induction_pass ps (d + 1) tb = (tb1, f1)"
      by (cases "induction_pass ps (d + 1) tb")
    have "tb1 k = Some e" using pass_preserves [of tb k e ps "d + 1"] "1.prems" s by simp
    then have "snd (induction_loop ps (d + 1) f1 tb1) k = Some e"
      using "1.IH" [OF True s [symmetric] refl] by simp
    then show ?thesis using True s by (simp add: loop_step)
  next
    case False
    then show ?thesis using "1.prems" by (simp add: loop_stop)
  qed
qed

lemma loop_bounds:
  "d \<le> fst (induction_loop ps d found tb) \<and> fst (induction_loop ps d found tb) \<le> max d 50"
proof (induction ps d found tb rule: induction_loop.induct)
  case (1 ps d found tb)
  show ?case
  proof (cases "found \<and> d < 50")
    case True
    obtain tb1 f1 where s: "induction_pass ps (d + 1) tb = (tb1, f1)"
      by (cases "induction_pass ps (d + 1) tb")
    have "d + 1 \<le> fst (induction_loop ps (d + 1) f1 tb1) \<and>
          fst (induction_loop ps (d + 1) f1 tb1) \<le> max (d + 1) 50"
      using "1.IH" [OF True s [symmetric] refl] by simp
    then show ?thesis using True s by (simp add: loop_step)
  next
    case False
    then show ?thesis by (simp add: loop_stop)
  qed
qed

lemma loop_fixpoint:
  "found \<Longrightarrow> d < 50 \<Longrightarrow> fst (induction_loop ps d found tb) < 50 \<Longrightarrow>
   induction_pass ps (fst (induction_loop ps d found tb)) (snd (induction_loop ps d found tb)) =
   (snd (induction_loop ps d found tb), False)"
proof (induction ps d found tb rule: induction_loop.induct)
  case (1 ps d found tb)
  obtain tb1 f1 where s: "induction_pass ps (d + 1) tb = (tb1, f1)"
    by (cases "induction_pass ps (d + 1) tb")
  have T: "found \<and> d < 50" using "1.prems" by simp
  have st: "induction_loop ps d found tb = induction_loop ps (d + 1) f1 tb1"
    using T s by (simp add: loop_step)
  show ?case
  proof (cases "f1 \<and> d + 1 < 50")
    case True
    then show ?thesis
      using "1.IH" [OF T s [symmetric] refl] "1.prems"(3) unfolding st by simp
  next
    case False
    then have e: "induction_loop ps (d + 1) f1 tb1 = (d + 1, tb1)" by (simp add: loop_stop)
    with "1.prems"(3) st have "d + 1 < 50" by simp
    with False have nf: "\<not> f1" by simp
    then have "induction_pass ps (d + 1) tb = (tb, False)"
      using pass_nothing_found [of ps "d + 1" tb] s by simp
    with s have "tb1 = tb" by simp
    then show ?thesis using st e s nf by simp
  qed
qed

lemma loop_last_label:
  "d + 2 \<le> fst (induction_loop ps d found tb) \<Longrightarrow>
   \<exists>k mv. snd (induction_loop ps d found tb) k =
     Some (MATE (fst (induction_loop ps d found tb) - 1), mv)"
proof (induction ps d found tb rule: induction_loop.induct)
  case (1 ps d found tb)
  obtain tb1 f1 where s: "induction_pass ps (d + 1) tb = (tb1, f1)"
    by (cases "induction_pass ps (d + 1) tb")
  have T: "found \<and> d < 50"
  proof (rule ccontr)
    assume "\<not> (found \<and> d < 50)"
    then have "induction_loop ps d found tb = (d, tb)" by (simp add: loop_stop)
    with "1.prems" show False by simp
  qed
  have st: "induction_loop ps d found tb = induction_loop ps (d + 1) f1 tb1"
    using T s by (simp add: loop_step)
  show ?case
  proof (cases "d + 3 \<le> fst (induction_loop ps (d + 1) f1 tb1)")
    case True
    then show ?thesis
      using "1.IH" [OF T s [symmetric] refl] unfolding st by simp
  next
    case False
    with "1.prems" st have n: "fst (induction_loop ps (d + 1) f1 tb1) = d + 2" by simp
    have f1: "f1"
    proof (rule ccontr)
      assume "\<not> f1"
      then have "induction_loop ps (d + 1) f1 tb1 = (d + 1, tb1)" by (simp add: loop_stop)
      with n show False by simp
    qed
    then obtain k mv where "tb1 k = Some (MATE (d + 1), mv)"
      using pass_found_labels [of ps "d + 1" tb] s by auto
    then have "snd (induction_loop ps (d + 1) f1 tb1) k = Some (MATE (d + 1), mv)"
      by (rule loop_preserves)
    then show ?thesis unfolding st n by auto
  qed
qed

lemma mark_draws_preserves: "tb k = Some e \<Longrightarrow> mark_draws ps tb k = Some e"
  by (simp add: mark_draws_eq)

lemma backward_induction_preserves:
  "tb k = Some e \<Longrightarrow> backward_induction_fixed ps tb k = Some e"
  unfolding backward_induction_fixed_def
  by (intro mark_draws_preserves loop_preserves)

lemma stalemates_keep_checkmates:
  "label_checkmates ps Map.empty k = Some e \<Longrightarrow>
   label_stalemates ps (label_checkmates ps Map.empty) k = Some e"
  by (auto simp: label_stalemates_eq label_checkmates_eq dest: checkmate_not_stalemate
      split: if_splits)

lemma passes_le_dmax:
  assumes "\<forall>k n mv. backward_induction_fixed ps tb k = Some (MATE n, mv) \<longrightarrow> n \<le> D"
  shows "fst (induction_loop ps 0 True tb) \<le> D + 1"
proof (cases "2 \<le> fst (induction_loop ps 0 True tb)")
  case True
  then obtain k mv where
    "snd (induction_loop ps 0 True tb) k = Some (MATE (fst (induction_loop ps 0 True tb) - 1), mv)"
    using loop_last_label [of 0 ps True tb] by auto
  then have "backward_induction_fixed ps tb k =
     Some (MATE (fst (induction_loop ps 0 True tb) - 1), mv)"
    unfolding backward_induction_fixed_def by (rule mark_draws_preserves)
  with assms have "fst (induction_loop ps 0 True tb) - 1 \<le> D" by blast
  then show ?thesis by simp
next
  case False
  then show ?thesis by simp
qed

lemma generate_krk_tablebase_alt:
  "generate_krk_tablebase = backward_induction_fixed generate_all_positions terminal_store"
  by (simp add: generate_krk_tablebase_def Let_def terminal_store_def)

lemma loop_at_least_one: "1 \<le> fst (induction_loop ps 0 True tb)"
proof -
  have "induction_loop ps 0 True tb =
     induction_loop ps (Suc 0) (snd (induction_pass ps (Suc 0) tb)) (fst (induction_pass ps (Suc 0) tb))"
    by (rule loop_step) simp_all
  then show ?thesis
    using loop_bounds [of "Suc 0" ps "snd (induction_pass ps (Suc 0) tb)" "fst (induction_pass ps (Suc 0) tb)"]
    by simp
qed

lemma loop_at_most_fifty: "fst (induction_loop ps 0 True tb) \<le> 50"
  using loop_bounds [of 0 ps True tb] by simp

text \<open>
  Claim C3. An entry of the store is never changed or removed: not by the loop body for
  one position, not by a pass, not by the whole loop, not by the closing draw marking,
  and the stalemate step keeps the entries of the checkmate step, so that every terminal
  entry is still in the constructed store. The loop is a total function: it makes at
  least one and at most 50 passes; when it stops before the cap its last pass labels
  nothing; and if \<open>D\<close> bounds every DTM of the resulting store, it makes at most
  \<open>D + 1\<close> passes.
\<close>

theorem labeled_once_and_terminates:
  "(tb k = Some e \<longrightarrow>
      fst (try_position c (tb, found) p) k = Some e \<and>
      fst (induction_pass ps c tb) k = Some e \<and>
      snd (induction_loop ps 0 True tb) k = Some e \<and>
      backward_induction_fixed ps tb k = Some e) \<and>
   (label_checkmates ps Map.empty k = Some e \<longrightarrow>
      label_stalemates ps (label_checkmates ps Map.empty) k = Some e) \<and>
   (terminal_store k = Some e \<longrightarrow> generate_krk_tablebase k = Some e) \<and>
   1 \<le> fst (induction_loop ps 0 True tb) \<and>
   fst (induction_loop ps 0 True tb) \<le> 50 \<and>
   (fst (induction_loop ps 0 True tb) < 50 \<longrightarrow>
      induction_pass ps (fst (induction_loop ps 0 True tb)) (snd (induction_loop ps 0 True tb)) =
        (snd (induction_loop ps 0 True tb), False)) \<and>
   ((\<forall>k' n mv. backward_induction_fixed ps tb k' = Some (MATE n, mv) \<longrightarrow> n \<le> D) \<longrightarrow>
      fst (induction_loop ps 0 True tb) \<le> D + 1)"
proof (intro conjI impI)
  assume h: "tb k = Some e"
  show "fst (try_position c (tb, found) p) k = Some e"
    using h by (rule try_position_preserves)
  show "fst (induction_pass ps c tb) k = Some e"
    using h by (rule pass_preserves)
  show "snd (induction_loop ps 0 True tb) k = Some e"
    using h by (rule loop_preserves)
  show "backward_induction_fixed ps tb k = Some e"
    using h by (rule backward_induction_preserves)
next
  assume "label_checkmates ps Map.empty k = Some e"
  then show "label_stalemates ps (label_checkmates ps Map.empty) k = Some e"
    by (rule stalemates_keep_checkmates)
next
  assume "terminal_store k = Some e"
  then show "generate_krk_tablebase k = Some e"
    unfolding generate_krk_tablebase_alt by (rule backward_induction_preserves)
next
  show "1 \<le> fst (induction_loop ps 0 True tb)" by (rule loop_at_least_one)
  show "fst (induction_loop ps 0 True tb) \<le> 50" by (rule loop_at_most_fifty)
next
  assume "fst (induction_loop ps 0 True tb) < 50"
  then show "induction_pass ps (fst (induction_loop ps 0 True tb)) (snd (induction_loop ps 0 True tb)) =
        (snd (induction_loop ps 0 True tb), False)"
    using loop_fixpoint [of True 0 ps tb] by simp
next
  assume "\<forall>k' n mv. backward_induction_fixed ps tb k' = Some (MATE n, mv) \<longrightarrow> n \<le> D"
  then show "fst (induction_loop ps 0 True tb) \<le> D + 1" by (rule passes_le_dmax)
qed

theorem labeled_once_and_terminates_witness:
  "fst (induction_loop [krk_board 47 48 63 BLACK] 0 True
      (Map.empty(push (krk_board 47 48 63 BLACK) (63, 62) \<mapsto> (MATE 0, None)))) = 2 \<and>
   backward_induction_fixed [krk_board 47 48 63 BLACK]
      (Map.empty(push (krk_board 47 48 63 BLACK) (63, 62) \<mapsto> (MATE 0, None)))
      (push (krk_board 47 48 63 BLACK) (63, 62)) = Some (MATE 0, None) \<and>
   backward_induction_fixed [krk_board 47 48 63 BLACK]
      (Map.empty(push (krk_board 47 48 63 BLACK) (63, 62) \<mapsto> (MATE 0, None)))
      (krk_board 47 48 63 BLACK) = Some (MATE 1, Some ''h8g8'')"
proof -
  let ?p = "krk_board 47 48 63 BLACK"
  let ?s = "push ?p (63, 62)"
  let ?tb = "Map.empty(?s \<mapsto> (MATE 0, None))"
  let ?tb1 = "?tb(?p \<mapsto> (MATE 1, Some ''h8g8''))"
  have lm: "legal_moves ?p = [(63, 62)]" by code_simp
  have u: "uci (63, 62) = ''h8g8''" by code_simp
  have ne: "?s \<noteq> ?p" by (simp add: push_def krk_board_def)
  have tp: "turn ?p = BLACK" by (simp add: krk_board_def)
  have np: "?tb ?p = None" using ne by simp
  have sd: "successor_dtm ?tb ?p (63, 62) = Some 0" by (simp add: successor_dtm_def)
  have t1: "try_position (Suc 0) (?tb, False) ?p = (?tb1, True)"
    unfolding black_try_Suc [of ?p ?tb, OF tp np] using lm sd u by simp
  have p1: "induction_pass [?p] (Suc 0) ?tb = (?tb1, True)"
    using t1 by (simp add: induction_pass_def)
  have p2: "induction_pass [?p] (Suc (Suc 0)) ?tb1 = (?tb1, False)"
    by (simp add: induction_pass_def try_position_def)
  have l1: "induction_loop [?p] 0 True ?tb = induction_loop [?p] (Suc 0) True ?tb1"
    using loop_step [of True 0 "[?p]" ?tb] p1 by simp
  have l2: "induction_loop [?p] (Suc 0) True ?tb1 = induction_loop [?p] (Suc (Suc 0)) False ?tb1"
    using loop_step [of True "Suc 0" "[?p]" ?tb1] p2 by simp
  have l3: "induction_loop [?p] (Suc (Suc 0)) False ?tb1 = (Suc (Suc 0), ?tb1)"
    by (rule loop_stop) simp
  have L: "induction_loop [?p] 0 True ?tb = (2, ?tb1)"
    using l1 l2 l3 by (simp add: numeral_2_eq_2)
  have F: "backward_induction_fixed [?p] ?tb = ?tb1"
    unfolding backward_induction_fixed_def L by (simp add: mark_draws_def)
  have D: "\<forall>k' n mv. backward_induction_fixed [?p] ?tb k' = Some (MATE n, mv) \<longrightarrow> n \<le> 1"
    unfolding F by (auto split: if_splits)
  have K: "?tb ?s = Some (MATE 0, None)" by simp
  from labeled_once_and_terminates [of ?tb ?s "(MATE 0, None)" 1 False ?p "[?p]" 1] K D L F ne
  show ?thesis by simp
qed

section \<open>White is never in check\<close>

lemma white_never_in_check:
  assumes "k \<in> set generate_all_positions" "turn k = WHITE"
  shows "\<not> is_check k"
proof -
  obtain a r q t where k: "k = krk_board a r q t" and d: "2 \<le> square_distance a q"
    using positions_are_krk [OF assms(1)] by blast
  have "\<not> king_attacks q a" using d by (rule far_kings_not_attacked)
  then show ?thesis using assms(2)
    by (simp add: k is_check_def king_of_def krk_board_def is_attacked_by_def opponent_def)
qed

lemma checkmate_is_black:
  "k \<in> set generate_all_positions \<Longrightarrow> is_checkmate k \<Longrightarrow> turn k = BLACK"
  using white_never_in_check [of k] by (cases "turn k") (auto simp: is_checkmate_def)

section \<open>Two concrete positions\<close>

text \<open>
  Claim C6 as stated fails: in \<^verbatim>\<open>7k/R7/7K/8/8/8/8/8 b - - 0 1\<close> the black king on h8 is
  not in check, but it has the legal move to g8, which neither the rook on a7 nor the king
  on h6 attacks. The following is the negation of the claim at this position.
\<close>

theorem cornered_king_counterexample:
  "\<not> (legal_moves (krk_board 47 48 63 BLACK) = [] \<and>
      \<not> is_check (krk_board 47 48 63 BLACK) \<and>
      is_stalemate (krk_board 47 48 63 BLACK) \<and>
      generate_krk_tablebase (krk_board 47 48 63 BLACK) = Some (DRAW, None))"
proof -
  have "legal_moves (krk_board 47 48 63 BLACK) = [(63, 62)]" by code_simp
  then show ?thesis by simp
qed

text \<open>
  Claim C6, amended. The position \<^verbatim>\<open>7k/R7/7K/8/8/8/8/8 b - - 0 1\<close> is not in check and
  has exactly one legal move, \<^verbatim>\<open>h8g8\<close>; it is neither stalemate nor checkmate, and the
  checkmate and stalemate steps of the construction give it no entry.
\<close>

theorem cornered_king_has_a_move:
  "fen_string (krk_board 47 48 63 BLACK) = ''7k/R7/7K/8/8/8/8/8 b - - 0 1'' \<and>
   \<not> is_check (krk_board 47 48 63 BLACK) \<and>
   legal_moves (krk_board 47 48 63 BLACK) = [(63, 62)] \<and>
   uci (63, 62) = ''h8g8'' \<and>
   \<not> is_stalemate (krk_board 47 48 63 BLACK) \<and>
   \<not> is_checkmate (krk_board 47 48 63 BLACK) \<and>
   terminal_store (krk_board 47 48 63 BLACK) = None"
proof -
  have f: "fen_string (krk_board 47 48 63 BLACK) = ''7k/R7/7K/8/8/8/8/8 b - - 0 1''"
    by code_simp
  have c: "\<not> is_check (krk_board 47 48 63 BLACK)" by code_simp
  have l: "legal_moves (krk_board 47 48 63 BLACK) = [(63, 62)]" by code_simp
  have u: "uci (63, 62) = ''h8g8''" by code_simp
  from l have s: "\<not> is_stalemate (krk_board 47 48 63 BLACK)"
    and m: "\<not> is_checkmate (krk_board 47 48 63 BLACK)"
    by (simp_all add: is_stalemate_def is_checkmate_def)
  from s m have t: "terminal_store (krk_board 47 48 63 BLACK) = None"
    by (simp add: terminal_store_eq)
  from f c l u s m t show ?thesis by simp
qed

text \<open>
  Claim C2, where the code departs from it. In \<^verbatim>\<open>7k/8/7K/8/8/8/8/R7 w - - 0 1\<close> White
  has the legal move \<^verbatim>\<open>a1a8\<close>. The position it reaches is checkmate and is stored as
  \<open>MATE 0\<close> under its key \<^verbatim>\<open>R6k/8/7K/8/8/8/8/8 b - - 0 1\<close>. The loop, however, looks the
  successor up under the FEN taken after the push, \<^verbatim>\<open>R6k/8/7K/8/8/8/8/8 b - - 1 1\<close>, which
  differs in the halfmove clock and has no entry. So the pass with \<^verbatim>\<open>current_dtm = 1\<close>
  leaves the position unlabeled, and the constructed store holds it as a draw.
\<close>

theorem mate_in_one_not_labeled:
  "fen_string (krk_board 47 0 63 WHITE) = ''7k/8/7K/8/8/8/8/R7 w - - 0 1'' \<and>
   (0, 56) \<in> set (legal_moves (krk_board 47 0 63 WHITE)) \<and>
   uci (0, 56) = ''a1a8'' \<and>
   push (krk_board 47 0 63 WHITE) (0, 56) = (krk_board 47 56 63 BLACK)\<lparr>halfmove_clock := 1\<rparr> \<and>
   is_checkmate (krk_board 47 56 63 BLACK) \<and>
   terminal_store (krk_board 47 56 63 BLACK) = Some (MATE 0, None) \<and>
   fen_string (krk_board 47 56 63 BLACK) = ''R6k/8/7K/8/8/8/8/8 b - - 0 1'' \<and>
   fen_string (push (krk_board 47 0 63 WHITE) (0, 56)) = ''R6k/8/7K/8/8/8/8/8 b - - 1 1'' \<and>
   terminal_store (push (krk_board 47 0 63 WHITE) (0, 56)) = None \<and>
   terminal_store (krk_board 47 0 63 WHITE) = None \<and>
   try_position 1 (terminal_store, False) (krk_board 47 0 63 WHITE) = (terminal_store, False) \<and>
   generate_krk_tablebase (krk_board 47 0 63 WHITE) = Some (DRAW, None)"
proof -
  let ?p = "krk_board 47 0 63 WHITE"
  let ?s = "krk_board 47 56 63 BLACK"
  have f: "fen_string ?p = ''7k/8/7K/8/8/8/8/R7 w - - 0 1''" by code_simp
  have l: "(0, 56) \<in> set (legal_moves ?p)" by code_simp
  have u: "uci (0, 56) = ''a1a8''" by code_simp
  have e: "push ?p (0, 56) = ?s\<lparr>halfmove_clock := 1\<rparr>"
    by (simp add: push_def krk_board_def relocate_def is_capture_def opponent_def)
  have c: "is_checkmate ?s" by code_simp
  have d: "square_distance 47 63 = 2" by code_simp
  have ins: "?s \<in> set generate_all_positions" using d by (simp add: krk_board_in_positions)
  have inp: "?p \<in> set generate_all_positions" using d by (simp add: krk_board_in_positions)
  have ts: "terminal_store ?s = Some (MATE 0, None)" using c ins by (simp add: terminal_store_eq)
  have fs: "fen_string ?s = ''R6k/8/7K/8/8/8/8/8 b - - 0 1''" by code_simp
  have fp: "fen_string (push ?p (0, 56)) = ''R6k/8/7K/8/8/8/8/8 b - - 1 1''" by code_simp
  have cp: "canonical ?p" using inp by (rule positions_canonical)
  have tn: "terminal_store (push ?p (0, 56)) = None"
    using terminal_store_canonical cp l by (rule successor_absent)
  have nm: "\<not> is_checkmate ?p" "\<not> is_stalemate ?p"
    using l by (auto simp: is_checkmate_def is_stalemate_def)
  then have tp: "terminal_store ?p = None" by (simp add: terminal_store_eq)
  have tr: "try_position 1 (terminal_store, False) ?p = (terminal_store, False)"
    using terminal_store_canonical cp by (rule try_position_noop)
  have g: "generate_krk_tablebase ?p = Some (DRAW, None)"
    using inp nm by (simp add: generate_krk_tablebase_eq)
  from f l u e c ts fs fp tn tp tr g show ?thesis by blast
qed

section \<open>The heuristic generator builds the same store\<close>

lemma simple_label_terminals_eq:
  "simple_label_terminals ps tb =
   (\<lambda>k. if k \<in> set ps \<and> is_checkmate k then Some (MATE 0, None)
        else if k \<in> set ps \<and> is_stalemate k then Some (DRAW, None)
        else tb k)"
  unfolding simple_label_terminals_def
  by (induction ps arbitrary: tb) (auto simp: fun_eq_iff dest: checkmate_not_stalemate)

lemma simple_terminals_are_terminal_store:
  "set ps = set generate_all_positions \<Longrightarrow> simple_label_terminals ps Map.empty = terminal_store"
  by (auto simp: simple_label_terminals_eq terminal_store_eq fun_eq_iff)

lemma not_near_mate:
  "stored_canonical tb \<Longrightarrow> canonical fen \<Longrightarrow> \<not> is_near_mate tb fen"
  using successor_absent [of tb fen] by (auto simp: is_near_mate_def list_ex_iff)

lemma simple_check_noop:
  "stored_canonical tb \<Longrightarrow> canonical fen \<Longrightarrow> simple_check i (tb, n) fen = (tb, n)"
  by (simp add: simple_check_def not_near_mate)

lemma simple_fold_noop:
  "stored_canonical tb \<Longrightarrow> \<forall>p \<in> set ps. canonical p \<Longrightarrow>
   foldl (simple_check i) (tb, n) ps = (tb, n)"
  by (induction ps) (simp_all add: simple_check_noop)

lemma set_slice_to: "set (slice_to n xs) \<subseteq> set xs"
  by (auto simp: slice_to_def dest: in_set_takeD)

lemma simple_loop_noop:
  assumes "stored_canonical tb" "\<forall>p \<in> set ps. canonical p"
  shows "simple_loop ps known 0 tb = tb"
proof -
  let ?check = "slice_to (min 1000 (int (length ps) - int (card known)))
                  (filter (\<lambda>p. p \<notin> known) ps)"
  have "set ?check \<subseteq> set ps" using set_slice_to [of _ "filter (\<lambda>p. p \<notin> known) ps"] by auto
  then have "\<forall>p \<in> set ?check. canonical p" using assms(2) by blast
  then have "foldl (simple_check (Suc 0)) (tb, 0) ?check = (tb, 0)"
    using assms(1) by (intro simple_fold_noop)
  then show ?thesis by (subst simple_loop.simps) (simp add: Let_def)
qed

lemma generate_tablebase_simple_eq:
  assumes "set ps = set generate_all_positions"
  shows "generate_tablebase_simple ps = generate_krk_tablebase"
proof -
  have c: "\<forall>p \<in> set ps. canonical p" using assms positions_canonical by simp
  have "generate_tablebase_simple ps = mark_draws ps terminal_store"
    unfolding generate_tablebase_simple_def simple_backward_induction_def
      simple_terminals_are_terminal_store [OF assms]
    using simple_loop_noop [OF terminal_store_canonical c] by simp
  also have "\<dots> = mark_draws generate_all_positions terminal_store"
    by (simp add: mark_draws_eq assms)
  finally show ?thesis by (simp add: generate_krk_tablebase_unfold)
qed

text \<open>
  Claim C5, where the code departs from it. Whatever the order in which the heuristic
  generator iterates its set of positions, the store it builds is equal to the store of
  \<^verbatim>\<open>generate_krk_tablebase\<close>: in both, no successor lookup finds an entry, so both hold
  \<open>MATE 0\<close> for the checkmates and a draw for everything else. For instance the
  position \<^verbatim>\<open>7k/8/7K/8/8/8/8/R7 w - - 0 1\<close>, from which \<^verbatim>\<open>a1a8\<close> mates, is a draw in both.
\<close>

theorem heuristic_store_equals_fixed:
  "(set ps = set generate_all_positions \<longrightarrow> generate_tablebase_simple ps = generate_krk_tablebase) \<and>
   is_checkmate (push (krk_board 47 0 63 WHITE) (0, 56)) \<and>
   generate_krk_tablebase (krk_board 47 0 63 WHITE) = Some (DRAW, None) \<and>
   generate_tablebase_simple generate_all_positions (krk_board 47 0 63 WHITE) = Some (DRAW, None)"
proof -
  let ?p = "krk_board 47 0 63 WHITE"
  have l: "(0, 56) \<in> set (legal_moves ?p)" by code_simp
  have c: "is_checkmate (push ?p (0, 56))" by code_simp
  have d: "square_distance 47 63 = 2" by code_simp
  have inp: "?p \<in> set generate_all_positions" using d by (simp add: krk_board_in_positions)
  have g: "generate_krk_tablebase ?p = Some (DRAW, None)"
    using inp l by (rule final_draw_if_moves)
  show ?thesis using c g generate_tablebase_simple_eq by simp
qed

theorem heuristic_store_equals_fixed_witness:
  "generate_tablebase_simple (rev generate_all_positions) = generate_krk_tablebase"
  using heuristic_store_equals_fixed [of "rev generate_all_positions"] by simp

section \<open>The White rule as the code has it\<close>

text \<open>The White branch labels an unlabeled position in the pass with
  \<^verbatim>\<open>current_dtm = d + 1\<close> exactly when some looked-up successor has DTM \<open>d\<close> and none
  has a smaller one; it then stores a move to a successor of DTM \<open>d\<close>.\<close>

lemma white_step_None:
  "successor_dtm tb b m = None \<Longrightarrow> white_step tb b acc m = acc"
  by (cases acc) (auto simp: white_step_def successor_dtm_def split: option.splits dtm.splits)

lemma white_step_Some:
  "successor_dtm tb b m = Some n \<Longrightarrow>
   white_step tb b (bm, bd) m = (if enat n < bd then (Some (uci m), enat n) else (bm, bd))"
  by (auto simp: white_step_def successor_dtm_def split: option.splits dtm.splits)

lemma white_invI:
  "acc = (Some (uci m), enat n) \<Longrightarrow> m \<in> set ms \<Longrightarrow> successor_dtm tb b m = Some n \<Longrightarrow>
   (\<forall>m' \<in> set ms. \<forall>n'. successor_dtm tb b m' = Some n' \<longrightarrow> n \<le> n') \<Longrightarrow>
   white_inv tb b ms acc"
  unfolding white_inv_def by blast

lemma white_step_inv:
  assumes "white_inv tb b ms acc"
  shows "white_inv tb b (ms @ [x]) (white_step tb b acc x)"
proof (cases "successor_dtm tb b x")
  case None
  then show ?thesis using assms
    by (auto simp: white_inv_def white_step_None)
next
  case (Some k)
  from assms [unfolded white_inv_def] show ?thesis
  proof (elim disjE conjE exE)
    assume a: "acc = (None, \<infinity>)" "\<forall>m \<in> set ms. successor_dtm tb b m = None"
    then have w: "white_step tb b acc x = (Some (uci x), enat k)"
      using Some by (simp add: white_step_Some)
    have "\<forall>m' \<in> set (ms @ [x]). \<forall>n'. successor_dtm tb b m' = Some n' \<longrightarrow> k \<le> n'"
      using a(2) Some by auto
    with w Some show ?thesis by (intro white_invI [of _ x k]) auto
  next
    fix m n
    assume acc: "acc = (Some (uci m), enat n)" and m: "m \<in> set ms"
      and s: "successor_dtm tb b m = Some n"
      and least: "\<forall>m' \<in> set ms. \<forall>n'. successor_dtm tb b m' = Some n' \<longrightarrow> n \<le> n'"
    show ?thesis
    proof (cases "k < n")
      case True
      then have w: "white_step tb b acc x = (Some (uci x), enat k)"
        using Some acc by (simp add: white_step_Some)
      have "\<forall>m' \<in> set (ms @ [x]). \<forall>n'. successor_dtm tb b m' = Some n' \<longrightarrow> k \<le> n'"
        using least True Some by fastforce
      with w Some show ?thesis by (intro white_invI [of _ x k]) auto
    next
      case False
      then have w: "white_step tb b acc x = (Some (uci m), enat n)"
        using Some acc by (simp add: white_step_Some)
      have "\<forall>m' \<in> set (ms @ [x]). \<forall>n'. successor_dtm tb b m' = Some n' \<longrightarrow> n \<le> n'"
        using least False Some by fastforce
      with w m s show ?thesis by (intro white_invI [of _ m n]) auto
    qed
  qed
qed

lemma white_fold_inv: "white_inv tb b ms (foldl (white_step tb b) (None, \<infinity>) ms)"
proof (induction ms rule: rev_induct)
  case Nil
  then show ?case by (simp add: white_inv_def)
next
  case (snoc x xs)
  then show ?case using white_step_inv [of tb b xs _ x] by simp
qed

lemma white_scan_inv: "white_inv tb b (legal_moves b) (white_scan tb b)"
  unfolding white_scan_def by (rule white_fold_inv)

lemma uci_nonempty: "uci m \<noteq> []"
  by (simp add: uci_def square_name_def)

lemma white_try:
  assumes "turn p = WHITE" "tb p = None"
  shows "try_position (Suc d) (tb, f) p =
     (if (\<exists>m \<in> set (legal_moves p). successor_dtm tb p m = Some d) \<and>
         (\<forall>m \<in> set (legal_moves p). \<forall>n. successor_dtm tb p m = Some n \<longrightarrow> d \<le> n)
      then (tb(p \<mapsto> (MATE (Suc d), fst (white_scan tb p))), True)
      else (tb, f))"
proof -
  let ?ok = "(\<exists>m \<in> set (legal_moves p). successor_dtm tb p m = Some d) \<and>
         (\<forall>m \<in> set (legal_moves p). \<forall>n. successor_dtm tb p m = Some n \<longrightarrow> d \<le> n)"
  obtain bm bd where w: "white_scan tb p = (bm, bd)" by (cases "white_scan tb p")
  have t: "try_position (Suc d) (tb, f) p =
     (if truthy bm \<and> bd = enat d then (tb(p \<mapsto> (MATE (Suc d), bm)), True) else (tb, f))"
    using assms w by (simp add: try_position_def)
  have "truthy bm \<and> bd = enat d \<longleftrightarrow> ?ok"
    using white_scan_inv [of tb p] unfolding w white_inv_def
  proof (elim disjE conjE exE)
    assume "(bm, bd) = (None, \<infinity>)" "\<forall>m \<in> set (legal_moves p). successor_dtm tb p m = None"
    then show ?thesis by (auto simp: truthy_def)
  next
    fix m n
    assume a: "(bm, bd) = (Some (uci m), enat n)" "m \<in> set (legal_moves p)"
      "successor_dtm tb p m = Some n"
      "\<forall>m' \<in> set (legal_moves p). \<forall>n'. successor_dtm tb p m' = Some n' \<longrightarrow> n \<le> n'"
    then have tr: "truthy bm" by (auto simp: truthy_def uci_nonempty)
    show ?thesis
    proof
      assume "truthy bm \<and> bd = enat d"
      with a have "n = d" by simp
      with a show ?ok by blast
    next
      assume ok: ?ok
      then obtain m0 where "m0 \<in> set (legal_moves p)" "successor_dtm tb p m0 = Some d" by blast
      with a(4) have "n \<le> d" by blast
      moreover from ok a(2,3) have "d \<le> n" by blast
      ultimately show "truthy bm \<and> bd = enat d" using tr a(1) by simp
    qed
  qed
  then have e: "truthy bm \<and> bd = enat d \<longleftrightarrow> ?ok" .
  show ?thesis
  proof (cases ?ok)
    case True
    then have c: "truthy bm \<and> bd = enat d" using e by blast
    have l: "try_position (Suc d) (tb, f) p = (tb(p \<mapsto> (MATE (Suc d), bm)), True)"
      unfolding t by (rule if_P [OF c])
    have r: "(if ?ok then (tb(p \<mapsto> (MATE (Suc d), fst (white_scan tb p))), True) else (tb, f)) =
        (tb(p \<mapsto> (MATE (Suc d), bm)), True)"
      unfolding w fst_conv by (rule if_P [OF True])
    show ?thesis unfolding l r by (rule refl)
  next
    case False
    then have c: "\<not> (truthy bm \<and> bd = enat d)" using e by blast
    have l: "try_position (Suc d) (tb, f) p = (tb, f)"
      unfolding t by (rule if_not_P [OF c])
    have r: "(if ?ok then (tb(p \<mapsto> (MATE (Suc d), fst (white_scan tb p))), True) else (tb, f)) =
        (tb, f)"
      by (rule if_not_P [OF False])
    show ?thesis unfolding l r by (rule refl)
  qed
qed

lemma white_try_move:
  assumes "turn p = WHITE" "tb p = None"
  shows "try_position (Suc d) (tb, f) p = (tb, f) \<or>
     (\<exists>m \<in> set (legal_moves p). successor_dtm tb p m = Some d \<and>
        try_position (Suc d) (tb, f) p = (tb(p \<mapsto> (MATE (Suc d), Some (uci m))), True))"
proof (cases "(\<exists>m \<in> set (legal_moves p). successor_dtm tb p m = Some d) \<and>
         (\<forall>m \<in> set (legal_moves p). \<forall>n. successor_dtm tb p m = Some n \<longrightarrow> d \<le> n)")
  case False
  have "try_position (Suc d) (tb, f) p = (tb, f)"
    unfolding white_try [of p tb, OF assms] by (rule if_not_P [OF False])
  then show ?thesis by blast
next
  case True
  have t: "try_position (Suc d) (tb, f) p =
      (tb(p \<mapsto> (MATE (Suc d), fst (white_scan tb p))), True)"
    unfolding white_try [of p tb, OF assms] by (rule if_P [OF True])
  from True obtain m0 where m0: "m0 \<in> set (legal_moves p)" "successor_dtm tb p m0 = Some d"
    by blast
  from white_scan_inv [of tb p] m0
  obtain m n where a: "white_scan tb p = (Some (uci m), enat n)" "m \<in> set (legal_moves p)"
      "successor_dtm tb p m = Some n"
      "\<forall>m' \<in> set (legal_moves p). \<forall>n'. successor_dtm tb p m' = Some n' \<longrightarrow> n \<le> n'"
    unfolding white_inv_def by force
  from a(4) m0 have "n \<le> d" by blast
  moreover from True a(2,3) have "d \<le> n" by blast
  ultimately have "n = d" by simp
  with a t show ?thesis by auto
qed

lemma black_try_move:
  assumes "turn p = BLACK" "tb p = None"
  shows "try_position (Suc d) (tb, f) p = (tb, f) \<or>
     (\<exists>m \<in> set (legal_moves p). successor_dtm tb p m = Some d \<and>
        try_position (Suc d) (tb, f) p = (tb(p \<mapsto> (MATE (Suc d), Some (uci m))), True))"
proof (cases "fst (try_position (Suc d) (tb, f) p) p \<noteq> None")
  case True
  then show ?thesis using black_rule_move [of p tb d f] assms by blast
next
  case False
  then show ?thesis
    using try_position_cases [of "Suc d" tb f p] by auto
qed

lemma try_position_Suc_cases:
  "try_position (Suc d) (tb, f) p = (tb, f) \<or>
   (tb p = None \<and> (\<exists>m \<in> set (legal_moves p). successor_dtm tb p m = Some d \<and>
        try_position (Suc d) (tb, f) p = (tb(p \<mapsto> (MATE (Suc d), Some (uci m))), True)))"
proof (cases "tb p = None")
  case True
  show ?thesis
  proof (cases "turn p")
    case WHITE
    then show ?thesis using white_try_move [of p tb d f] True by blast
  next
    case BLACK
    then show ?thesis using black_try_move [of p tb d f] True by blast
  qed
next
  case False
  then show ?thesis by (auto simp: try_position_def)
qed

section \<open>Properties of entries kept by the induction\<close>

lemma turn_push: "turn (push b m) = opponent (turn b)"
  by (simp add: push_def)

lemma try_position_best_moves_ok:
  assumes "best_moves_ok tb"
  shows "best_moves_ok (fst (try_position (Suc d) (tb, f) p))"
proof -
  from try_position_Suc_cases [of d tb f p] show ?thesis
  proof
    assume "try_position (Suc d) (tb, f) p = (tb, f)"
    then show ?thesis using assms by simp
  next
    assume "tb p = None \<and> (\<exists>m \<in> set (legal_moves p). successor_dtm tb p m = Some d \<and>
        try_position (Suc d) (tb, f) p = (tb(p \<mapsto> (MATE (Suc d), Some (uci m))), True))"
    then obtain m where
      t: "try_position (Suc d) (tb, f) p = (tb(p \<mapsto> (MATE (Suc d), Some (uci m))), True)"
      by blast
    show ?thesis using assms unfolding t best_moves_ok_def by (simp split: if_splits)
  qed
qed

lemma try_position_parity_ok:
  assumes "parity_ok tb"
  shows "parity_ok (fst (try_position (Suc d) (tb, f) p))"
proof -
  from try_position_Suc_cases [of d tb f p] show ?thesis
  proof
    assume "try_position (Suc d) (tb, f) p = (tb, f)"
    then show ?thesis using assms by simp
  next
    assume "tb p = None \<and> (\<exists>m \<in> set (legal_moves p). successor_dtm tb p m = Some d \<and>
        try_position (Suc d) (tb, f) p = (tb(p \<mapsto> (MATE (Suc d), Some (uci m))), True))"
    then obtain m where s: "successor_dtm tb p m = Some d"
      and t: "try_position (Suc d) (tb, f) p = (tb(p \<mapsto> (MATE (Suc d), Some (uci m))), True)"
      by blast
    from s obtain mv where "tb (push p m) = Some (MATE d, mv)"
      by (auto simp: successor_dtm_Some)
    with assms have "turn (push p m) = WHITE \<longleftrightarrow> odd d" unfolding parity_ok_def by blast
    then have "turn p = WHITE \<longleftrightarrow> odd (Suc d)"
      by (cases "turn p") (simp_all add: turn_push opponent_def)
    then show ?thesis using assms unfolding t parity_ok_def by (simp split: if_splits)
  qed
qed

lemma fold_invariant:
  assumes step: "\<And>tb f p. I tb \<Longrightarrow> I (fst (try_position c (tb, f) p))"
  shows "I tb \<Longrightarrow> I (fst (foldl (try_position c) (tb, f) ps))"
proof (induction ps arbitrary: tb f)
  case Nil
  then show ?case by simp
next
  case (Cons p ps)
  obtain tb1 f1 where s: "try_position c (tb, f) p = (tb1, f1)"
    by (cases "try_position c (tb, f) p")
  have "I tb1" using step [OF Cons.prems, of f p] s by simp
  then show ?case using Cons.IH s by simp
qed

lemma loop_invariant:
  assumes step: "\<And>tb d f p. I tb \<Longrightarrow> I (fst (try_position (Suc d) (tb, f) p))"
  shows "I tb \<Longrightarrow> I (snd (induction_loop ps d found tb))"
proof (induction ps d found tb rule: induction_loop.induct)
  case (1 ps d found tb)
  show ?case
  proof (cases "found \<and> d < 50")
    case True
    obtain tb1 f1 where s: "induction_pass ps (d + 1) tb = (tb1, f1)"
      by (cases "induction_pass ps (d + 1) tb")
    have "I (fst (foldl (try_position (Suc d)) (tb, False) ps))"
    proof (rule fold_invariant [where I = I])
      show "\<And>tb f p. I tb \<Longrightarrow> I (fst (try_position (Suc d) (tb, f) p))" by (rule step)
      show "I tb" by (rule "1.prems")
    qed
    then have "I tb1" using s by (simp add: induction_pass_def)
    then have "I (snd (induction_loop ps (d + 1) f1 tb1))"
      using "1.IH" [OF True s [symmetric] refl] by simp
    then show ?thesis using True s by (simp add: loop_step)
  next
    case False
    then show ?thesis using "1.prems" by (simp add: loop_stop)
  qed
qed

lemma mark_draws_best_moves_ok: "best_moves_ok tb \<Longrightarrow> best_moves_ok (mark_draws ps tb)"
  unfolding best_moves_ok_def mark_draws_eq by (simp split: if_splits)

lemma mark_draws_parity_ok: "parity_ok tb \<Longrightarrow> parity_ok (mark_draws ps tb)"
  unfolding parity_ok_def mark_draws_eq by (simp split: if_splits)

lemma backward_induction_best_moves_ok:
  "best_moves_ok tb \<Longrightarrow> best_moves_ok (backward_induction_fixed ps tb)"
  unfolding backward_induction_fixed_def
proof (rule mark_draws_best_moves_ok, rule loop_invariant [where I = best_moves_ok])
  show "\<And>tb d f p. best_moves_ok tb \<Longrightarrow> best_moves_ok (fst (try_position (Suc d) (tb, f) p))"
    by (rule try_position_best_moves_ok)
qed

lemma backward_induction_parity_ok:
  "parity_ok tb \<Longrightarrow> parity_ok (backward_induction_fixed ps tb)"
  unfolding backward_induction_fixed_def
proof (rule mark_draws_parity_ok, rule loop_invariant [where I = parity_ok])
  show "\<And>tb d f p. parity_ok tb \<Longrightarrow> parity_ok (fst (try_position (Suc d) (tb, f) p))"
    by (rule try_position_parity_ok)
qed

lemma terminal_best_moves_ok: "best_moves_ok terminal_store"
  unfolding best_moves_ok_def terminal_store_eq by (auto split: if_splits)

lemma terminal_parity_ok: "parity_ok terminal_store"
  unfolding parity_ok_def terminal_store_eq
  by (auto simp: checkmate_is_black split: if_splits)

lemma final_best_moves_ok: "best_moves_ok generate_krk_tablebase"
  unfolding generate_krk_tablebase_alt
  by (rule backward_induction_best_moves_ok) (rule terminal_best_moves_ok)

lemma final_parity_ok: "parity_ok generate_krk_tablebase"
  unfolding generate_krk_tablebase_alt
  by (rule backward_induction_parity_ok) (rule terminal_parity_ok)

section \<open>Entries of the constructed store\<close>

text \<open>
  Claim C9. In the store that \<^verbatim>\<open>generate_krk_tablebase\<close> returns, an entry holds a best
  move exactly when its value is \<open>MATE d\<close> with \<open>d > 0\<close>; an entry with value \<open>MATE 0\<close>
  or \<open>DRAW\<close> holds no move. More generally the induction keeps this property of a store:
  if it holds before \<^verbatim>\<open>_backward_induction_fixed\<close>, it holds after.
\<close>

theorem best_move_iff_positive_dtm:
  "(best_moves_ok tb \<longrightarrow> best_moves_ok (backward_induction_fixed ps tb)) \<and>
   (generate_krk_tablebase k = Some (v, best_move) \<longrightarrow>
      (best_move \<noteq> None \<longleftrightarrow> (\<exists>d. 0 < d \<and> v = MATE d)) \<and>
      (v = MATE 0 \<or> v = DRAW \<longrightarrow> best_move = None))"
proof (intro conjI impI)
  assume "best_moves_ok tb"
  then show "best_moves_ok (backward_induction_fixed ps tb)"
    by (rule backward_induction_best_moves_ok)
next
  assume s: "generate_krk_tablebase k = Some (v, best_move)"
  with final_best_moves_ok
  show i: "best_move \<noteq> None \<longleftrightarrow> (\<exists>d. 0 < d \<and> v = MATE d)"
    unfolding best_moves_ok_def by blast
  show "best_move = None" if "v = MATE 0 \<or> v = DRAW"
    using that i by auto
qed

theorem best_move_iff_positive_dtm_witness:
  "best_moves_ok (Map.empty(push (krk_board 47 48 63 BLACK) (63, 62) \<mapsto> (MATE 0, None))) \<and>
   best_moves_ok (backward_induction_fixed [krk_board 47 48 63 BLACK]
     (Map.empty(push (krk_board 47 48 63 BLACK) (63, 62) \<mapsto> (MATE 0, None)))) \<and>
   generate_krk_tablebase (krk_board 47 56 63 BLACK) = Some (MATE 0, None)"
proof -
  let ?tb = "Map.empty(push (krk_board 47 48 63 BLACK) (63, 62) \<mapsto> (MATE 0, None))"
  have b: "best_moves_ok ?tb" by (auto simp: best_moves_ok_def split: if_splits)
  have c: "is_checkmate (krk_board 47 56 63 BLACK)" by code_simp
  have d: "square_distance 47 63 = 2" by code_simp
  have s: "generate_krk_tablebase (krk_board 47 56 63 BLACK) = Some (MATE 0, None)"
    using c d by (simp add: generate_krk_tablebase_eq krk_board_in_positions)
  from best_move_iff_positive_dtm
    [of ?tb "[krk_board 47 48 63 BLACK]" "krk_board 47 56 63 BLACK" "MATE 0" None] b s
  show ?thesis by simp
qed

section \<open>Parity in the constructed store\<close>

text \<open>
  Claim C10. In the constructed store an entry \<open>MATE d\<close> of a position with White to move
  has odd \<open>d\<close>, one of a position with Black to move has even \<open>d\<close>, and every \<open>MATE 0\<close>
  entry belongs to a position with Black to move. More generally the induction keeps the
  parity property of a store: if it holds before \<^verbatim>\<open>_backward_induction_fixed\<close>, it holds
  after.
\<close>

theorem dtm_parity:
  "(parity_ok tb \<longrightarrow> parity_ok (backward_induction_fixed ps tb)) \<and>
   (generate_krk_tablebase k = Some (MATE d, best_move) \<longrightarrow>
      (turn k = WHITE \<longrightarrow> odd d) \<and> (turn k = BLACK \<longrightarrow> even d) \<and> (d = 0 \<longrightarrow> turn k = BLACK))"
proof (intro conjI impI)
  assume "parity_ok tb"
  then show "parity_ok (backward_induction_fixed ps tb)"
    by (rule backward_induction_parity_ok)
next
  assume s: "generate_krk_tablebase k = Some (MATE d, best_move)"
  with final_parity_ok have i: "turn k = WHITE \<longleftrightarrow> odd d"
    unfolding parity_ok_def by blast
  show "odd d" if "turn k = WHITE" using that i by simp
  show "even d" if "turn k = BLACK" using that i by simp
  show "turn k = BLACK" if "d = 0" using that i by (cases "turn k") simp_all
qed

theorem dtm_parity_witness:
  "parity_ok (Map.empty(push (krk_board 47 48 63 BLACK) (63, 62) \<mapsto> (MATE 1, Some ''a7a8''))) \<and>
   parity_ok (backward_induction_fixed [krk_board 47 48 63 BLACK]
     (Map.empty(push (krk_board 47 48 63 BLACK) (63, 62) \<mapsto> (MATE 1, Some ''a7a8'')))) \<and>
   generate_krk_tablebase (krk_board 47 56 63 BLACK) = Some (MATE 0, None) \<and>
   turn (krk_board 47 56 63 BLACK) = BLACK"
proof -
  let ?tb = "Map.empty(push (krk_board 47 48 63 BLACK) (63, 62) \<mapsto> (MATE 1, Some ''a7a8''))"
  have t: "turn (push (krk_board 47 48 63 BLACK) (63, 62)) = WHITE"
    by (simp add: push_def krk_board_def opponent_def)
  have b: "parity_ok ?tb" using t by (simp add: parity_ok_def)
  have c: "is_checkmate (krk_board 47 56 63 BLACK)" by code_simp
  have d: "square_distance 47 63 = 2" by code_simp
  have s: "generate_krk_tablebase (krk_board 47 56 63 BLACK) = Some (MATE 0, None)"
    using c d by (simp add: generate_krk_tablebase_eq krk_board_in_positions)
  from dtm_parity
    [of ?tb "[krk_board 47 48 63 BLACK]" "krk_board 47 56 63 BLACK" 0 None] b s
  show ?thesis by simp
qed


section \<open>The enumerator of the engine class\<close>

text \<open>\<^verbatim>\<open>ChessEngine.generate_all_krk_positions\<close>, which feeds no store, is stricter than
  \<^verbatim>\<open>_generate_all_positions\<close>: it never emits a position with White to move whose black
  king is attacked by the rook.\<close>

lemma in_krk_positions_at:
  "k \<in> set (krk_positions_at a r q) \<longleftrightarrow>
   a \<noteq> r \<and> a \<noteq> q \<and> r \<noteq> q \<and>
   \<not> (\<bar>int (a div 8) - int (q div 8)\<bar> \<le> 1 \<and> \<bar>int (a mod 8) - int (q mod 8)\<bar> \<le> 1) \<and>
   (\<exists>t. k = krk_board a r q t \<and>
      (t = WHITE \<longrightarrow> \<not> is_attacked_by (krk_board a r q t) WHITE q) \<and>
      (t = BLACK \<longrightarrow> \<not> is_attacked_by (krk_board a r q t) BLACK a))"
  unfolding krk_positions_at_def
  by (cases "is_attacked_by (krk_board a r q WHITE) WHITE q";
      cases "is_attacked_by (krk_board a r q BLACK) BLACK a") auto

lemma in_krk_positions_iff:
  "k \<in> set generate_all_krk_positions \<longleftrightarrow>
   (\<exists>a r q. a < 64 \<and> r < 64 \<and> q < 64 \<and> k \<in> set (krk_positions_at a r q))"
  unfolding generate_all_krk_positions_def by (auto simp: Bex_def)

lemma engine_enumerator_drops_checked_king:
  "rook_attacks (krk_board a r q WHITE) r q \<Longrightarrow>
   krk_board a r q WHITE \<notin> set generate_all_krk_positions"
  by (auto simp: in_krk_positions_iff in_krk_positions_at is_attacked_by_def krk_board_def)

end
